theory Spec2Isabelle
  imports Complex_Main
begin

section \<open>Python values: exceptions and binary64 floats\<close>

text \<open>
  The notebook computes the scaled size of an image in Python floats
  (\<^verbatim>\<open>image.width / image.height\<close>, \<^verbatim>\<open>int(target_size / aspect_ratio)\<close>).
  A finite float is modelled by the rational number it denotes; every operation rounds
  the exact result to the nearest binary64 value, ties to even.  Python integers are
  unbounded and are modelled by \<open>int\<close>.
\<close>

datatype exn =
    ZeroDivisionError
  | OverflowError
  | ValueError
  | IndexError
  | AssertionError
  | PipelineError string

definition and_then :: "exn + 'a \<Rightarrow> ('a \<Rightarrow> exn + 'b) \<Rightarrow> exn + 'b" where
  "and_then r f = (case r of Inl e \<Rightarrow> Inl e | Inr v \<Rightarrow> f v)"

definition pow2 :: "int \<Rightarrow> rat" where
  "pow2 k = power_int 2 k"

definition round_half_even :: "rat \<Rightarrow> int" where
  "round_half_even q =
     (let f = \<lfloor>q\<rfloor>; r = q - of_int f
      in if r < 1 / 2 then f else if 1 / 2 < r then f + 1 else if even f then f else f + 1)"

text \<open>
  The exponent of the unit in the last place of the binary64 format at \<open>x\<close>: the least
  \<open>e\<close> from \<open>-1074\<close> (the subnormal spacing) with \<open>\<bar>x\<bar> < 2 ^ (e + 53)\<close>, and \<open>971\<close> (the
  spacing of the largest binade) at most.
\<close>

function ulp_from :: "int \<Rightarrow> rat \<Rightarrow> int" where
  "ulp_from e x = (if 971 \<le> e \<or> \<bar>x\<bar> < pow2 (e + 53) then e else ulp_from (e + 1) x)"
  by pat_completeness auto
termination
  by (relation "measure (\<lambda>(e, x). nat (971 - e))") auto

declare ulp_from.simps [simp del]

definition ulp_exponent :: "rat \<Rightarrow> int" where
  "ulp_exponent x = ulp_from (- 1074) x"

definition double_round :: "rat \<Rightarrow> rat" where
  "double_round x =
     (let e = ulp_exponent x in of_int (round_half_even (x / pow2 e)) * pow2 e)"

text \<open>A rounded result of magnitude \<open>2 ^ 1024\<close> or more is not a finite binary64 value.\<close>

definition overflows :: "rat \<Rightarrow> bool" where
  "overflows r \<longleftrightarrow> pow2 1024 \<le> \<bar>r\<bar>"

text \<open>
  The result of a float multiplication or division: finite or infinite.  The sign of an
  infinity is not kept: the only consumer is \<^verbatim>\<open>int()\<close>, which raises on both.
\<close>

datatype pyfloat = Finite rat | Infinity

text \<open>\<^verbatim>\<open>a / b\<close> on two Python ints: the correctly rounded quotient.\<close>

definition int_truediv :: "int \<Rightarrow> int \<Rightarrow> exn + rat" where
  "int_truediv a b =
     (if b = 0 then Inl ZeroDivisionError
      else let r = double_round (of_int a / of_int b)
           in if overflows r then Inl OverflowError else Inr r)"

text \<open>The conversion of an int operand of a mixed int/float operation.\<close>

definition float_of_int :: "int \<Rightarrow> exn + rat" where
  "float_of_int n =
     (let r = double_round (of_int n) in if overflows r then Inl OverflowError else Inr r)"

definition float_div :: "rat \<Rightarrow> rat \<Rightarrow> exn + pyfloat" where
  "float_div a b =
     (if b = 0 then Inl ZeroDivisionError
      else let r = double_round (a / b) in Inr (if overflows r then Infinity else Finite r))"

definition float_mul :: "rat \<Rightarrow> rat \<Rightarrow> pyfloat" where
  "float_mul a b = (let r = double_round (a * b) in if overflows r then Infinity else Finite r)"

definition trunc :: "rat \<Rightarrow> int" where
  "trunc x = (if 0 \<le> x then \<lfloor>x\<rfloor> else \<lceil>x\<rceil>)"

text \<open>\<^verbatim>\<open>int(x)\<close> on a float: truncation toward zero.\<close>

definition int_of_float :: "pyfloat \<Rightarrow> exn + int" where
  "int_of_float x = (case x of Finite r \<Rightarrow> Inr (trunc r) | Infinity \<Rightarrow> Inl OverflowError)"


section \<open>Images and the image library\<close>

text \<open>
  An RGB raster: its size and the colour at each coordinate.  \<open>pixel im x y\<close> is the
  colour of column \<open>x\<close>, row \<open>y\<close>; only coordinates with \<open>0 \<le> x < width im\<close> and
  \<open>0 \<le> y < height im\<close> belong to the image.  All images are taken to be loaded and of
  mode RGB, as the JPEG input of the notebook and the outputs of its pipeline are, so
  that pasting converts nothing.
\<close>

type_synonym rgb = "nat \<times> nat \<times> nat"

record image =
  width :: int
  height :: int
  pixel :: "int \<Rightarrow> int \<Rightarrow> rgb"

text \<open>
  The image library keeps sizes and coordinates in C \<^verbatim>\<open>int\<close>s; an argument outside
  that range is refused with OverflowError.  Memory is taken to be unlimited: the
  MemoryError that the library raises beyond its storage limits is not modelled.
\<close>

definition c_int_max :: int where
  "c_int_max = 2 ^ 31 - 1"

definition c_int_min :: int where
  "c_int_min = - (2 ^ 31)"

definition fits_c_int :: "int \<Rightarrow> bool" where
  "fits_c_int n \<longleftrightarrow> c_int_min \<le> n \<and> n \<le> c_int_max"

text \<open>\<^verbatim>\<open>Image.new('RGB', size, color)\<close>: sizes below zero are a ValueError.\<close>

definition Image_new :: "int \<times> int \<Rightarrow> rgb \<Rightarrow> exn + image" where
  "Image_new sz color =
     (case sz of (w, h) \<Rightarrow>
        if w < 0 \<or> h < 0 then Inl ValueError
        else if \<not> fits_c_int w \<or> \<not> fits_c_int h then Inl OverflowError
        else Inr \<lparr>width = w, height = h, pixel = (\<lambda>x y. color)\<rparr>)"

text \<open>
  The resampling filter computes in floating point and is a parameter: it gives the
  colour of each pixel of the scaled image from the source image and the requested size.
\<close>

type_synonym resampler = "image \<Rightarrow> int \<Rightarrow> int \<Rightarrow> int \<Rightarrow> int \<Rightarrow> rgb"

text \<open>
  \<^verbatim>\<open>im.resize(size, Image.LANCZOS)\<close>: a request for the size the image already has
  returns a copy; otherwise both sides must be at least 1
  (\<^verbatim>\<open>ValueError: height and width must be > 0\<close>).
\<close>

definition Image_resize :: "resampler \<Rightarrow> image \<Rightarrow> int \<times> int \<Rightarrow> exn + image" where
  "Image_resize lanczos im sz =
     (case sz of (w, h) \<Rightarrow>
        if (width im, height im) = (w, h) then Inr im
        else if \<not> fits_c_int w \<or> \<not> fits_c_int h then Inl OverflowError
        else if w < 1 \<or> h < 1 then Inl ValueError
        else Inr \<lparr>width = w, height = h, pixel = lanczos im w h\<rparr>)"

text \<open>
  \<^verbatim>\<open>dst.paste(src, (x0, y0))\<close>: the pixels of \<open>src\<close> replace those of \<open>dst\<close> in the box with
  upper left corner \<open>(x0, y0)\<close> and the size of \<open>src\<close>; the part of the box outside \<open>dst\<close>
  is clipped, which the coordinate range of \<open>dst\<close> expresses.
\<close>

definition Image_paste :: "image \<Rightarrow> image \<Rightarrow> int \<times> int \<Rightarrow> image" where
  "Image_paste dst src box =
     (case box of (x0, y0) \<Rightarrow>
        dst\<lparr>pixel := (\<lambda>x y.
          if x0 \<le> x \<and> x < x0 + width src \<and> y0 \<le> y \<and> y < y0 + height src
          then pixel src (x - x0) (y - y0) else pixel dst x y)\<rparr>)"

text \<open>
  Image objects are mutable and passed by reference: the heap is the list of all image
  objects, a reference is an index into it, and a new object goes to the end.
\<close>

type_synonym ref = nat
type_synonym heap = "image list"

definition alloc :: "image \<Rightarrow> heap \<Rightarrow> ref \<times> heap" where
  "alloc im h = (length h, h @ [im])"


section \<open>The notebook: \<^verbatim>\<open>resize_and_pad\<close>\<close>

definition black :: rgb where
  "black = (0, 0, 0)"

text \<open>
  The first statements of \<^verbatim>\<open>resize_and_pad\<close>, from the sides of the image: the aspect
  ratio and the pair \<open>(new_width, new_height)\<close>.
\<close>

definition new_size :: "int \<Rightarrow> int \<Rightarrow> int \<Rightarrow> exn + (int \<times> int)" where
  "new_size image_width image_height target_size =
     and_then (int_truediv image_width image_height) (\<lambda>aspect_ratio.
       if 1 < aspect_ratio then
         and_then (float_of_int target_size) (\<lambda>t.
         and_then (float_div t aspect_ratio) (\<lambda>q.
         and_then (int_of_float q) (\<lambda>new_height.
         Inr (target_size, new_height))))
       else
         and_then (float_of_int target_size) (\<lambda>t.
         and_then (int_of_float (float_mul t aspect_ratio)) (\<lambda>new_width.
         Inr (new_width, target_size))))"

text \<open>
  \<^verbatim>\<open>(target_size - new_width) // 2\<close> and \<^verbatim>\<open>(target_size - new_height) // 2\<close>: Python's
  floor division.
\<close>

definition paste_offset :: "int \<Rightarrow> int \<Rightarrow> int" where
  "paste_offset target_size new_side = (target_size - new_side) div 2"

text \<open>
  The function itself, on the heap: it reads the image, allocates the scaled copy and
  the black canvas, pastes the copy into the canvas, and returns the canvas.  An
  exception leaves the function at once, with the heap as it is then.
\<close>

definition resize_and_pad :: "resampler \<Rightarrow> ref \<Rightarrow> int \<Rightarrow> heap \<Rightarrow> (exn + ref) \<times> heap" where
  "resize_and_pad lanczos image' target_size h =
     (case new_size (width (h ! image')) (height (h ! image')) target_size of
        Inl e \<Rightarrow> (Inl e, h)
      | Inr (new_width, new_height) \<Rightarrow>
     (case Image_resize lanczos (h ! image') (new_width, new_height) of
        Inl e \<Rightarrow> (Inl e, h)
      | Inr resized \<Rightarrow>
     (case alloc resized h of (resized_image, h1) \<Rightarrow>
     (case Image_new (target_size, target_size) black of
        Inl e \<Rightarrow> (Inl e, h1)
      | Inr canvas \<Rightarrow>
     (case alloc canvas h1 of (new_image, h2) \<Rightarrow>
        let paste_x = paste_offset target_size new_width;
            paste_y = paste_offset target_size new_height
        in (Inr new_image,
            h2[new_image := Image_paste (h2 ! new_image) (h2 ! resized_image)
                              (paste_x, paste_y)]))))))"


section \<open>The notebook: \<^verbatim>\<open>generate_images\<close>\<close>

text \<open>
  The diffusion pipeline is an external collaborator: a parameter that maps the
  arguments of one call to the images it returns, or to the exception it raises.
\<close>

record pipeline_call =
  p_prompt :: string
  p_image :: image
  p_num_inference_steps :: int
  p_num_images_per_prompt :: int
  p_strength :: rat
  p_guidance_scale :: rat
  p_negative_prompt :: string

type_synonym pipeline = "pipeline_call \<Rightarrow> exn + image list"

definition negative_prompt :: string where
  "negative_prompt = ''clear background, realistic photo, photography, ugly, fused, worst face, extra face, poorly drawn, duplicate, bad eyes, bad proportions''"

text \<open>
  What a call of \<^verbatim>\<open>generate_images\<close> can change: the heap of image objects, the calls
  made to the pipeline, and the grids handed to \<^verbatim>\<open>display\<close>.
\<close>

record world =
  heap :: heap
  pipeline_calls :: "pipeline_call list"
  displayed :: "ref list"

text \<open>\<^verbatim>\<open>for i in range(n): images_resized.append(resize_and_pad(images[i], size))\<close>\<close>

fun resize_each ::
  "resampler \<Rightarrow> ref list \<Rightarrow> int \<Rightarrow> nat list \<Rightarrow> ref list \<Rightarrow> heap \<Rightarrow> (exn + ref list) \<times> heap"
where
  "resize_each lanczos images size' [] images_resized h = (Inr images_resized, h)"
| "resize_each lanczos images size' (i # rest) images_resized h =
     (if i < length images then
        (case resize_and_pad lanczos (images ! i) size' h of
           (Inl e, h') \<Rightarrow> (Inl e, h')
         | (Inr r, h') \<Rightarrow> resize_each lanczos images size' rest (images_resized @ [r]) h')
      else (Inl IndexError, h))"

text \<open>
  \<^verbatim>\<open>make_image_grid(images, rows, cols)\<close> of the diffusers library: it asserts the
  number of images, takes the cell size from the first image, and pastes image \<open>i\<close> at
  \<^verbatim>\<open>(i % cols * w, i // cols * h)\<close> of a new black image.
\<close>

fun paste_cells :: "ref \<Rightarrow> ref list \<Rightarrow> int \<Rightarrow> int \<Rightarrow> int \<Rightarrow> int \<Rightarrow> heap \<Rightarrow> heap" where
  "paste_cells grid [] i cols w hh h = h"
| "paste_cells grid (img # rest) i cols w hh h =
     paste_cells grid rest (i + 1) cols w hh
       (h[grid := Image_paste (h ! grid) (h ! img) (i mod cols * w, i div cols * hh)])"

definition make_image_grid :: "ref list \<Rightarrow> int \<Rightarrow> int \<Rightarrow> heap \<Rightarrow> (exn + ref) \<times> heap" where
  "make_image_grid images rows cols h =
     (if int (length images) \<noteq> rows * cols then (Inl AssertionError, h)
      else case images of
        [] \<Rightarrow> (Inl IndexError, h)
      | first # _ \<Rightarrow>
          let w = width (h ! first); hh = height (h ! first)
          in (case Image_new (cols * w, rows * hh) black of
                Inl e \<Rightarrow> (Inl e, h)
              | Inr g \<Rightarrow>
                  (case alloc g h of (grid, h1) \<Rightarrow>
                     (Inr grid, paste_cells grid images 0 cols w hh h1))))"

definition generate_images ::
  "resampler \<Rightarrow> pipeline \<Rightarrow> string \<Rightarrow> ref \<Rightarrow> int \<Rightarrow> int \<Rightarrow> rat \<Rightarrow> rat \<Rightarrow> int \<Rightarrow> bool \<Rightarrow>
   world \<Rightarrow> (exn + ref list) \<times> world"
where
  "generate_images lanczos pipeline prompt image' steps n strength guidance size' show w =
     (let call = \<lparr>p_prompt = prompt, p_image = heap w ! image', p_num_inference_steps = steps,
                  p_num_images_per_prompt = n, p_strength = strength,
                  p_guidance_scale = guidance, p_negative_prompt = negative_prompt\<rparr>;
          w1 = w\<lparr>pipeline_calls := pipeline_calls w @ [call]\<rparr>
      in case pipeline call of
           Inl e \<Rightarrow> (Inl e, w1)
         | Inr outputs \<Rightarrow>
             let images = [length (heap w1) ..< length (heap w1) + length outputs];
                 w2 = w1\<lparr>heap := heap w1 @ outputs\<rparr>
             in (case resize_each lanczos images size' [0 ..< nat n] [] (heap w2) of
                   (Inl e, h3) \<Rightarrow> (Inl e, w2\<lparr>heap := h3\<rparr>)
                 | (Inr images_resized, h3) \<Rightarrow>
                     if show then
                       (case make_image_grid images_resized 1 n h3 of
                          (Inl e, h4) \<Rightarrow> (Inl e, w2\<lparr>heap := h4\<rparr>)
                        | (Inr grid, h4) \<Rightarrow>
                            (Inr images,
                             w2\<lparr>heap := h4, displayed := displayed w2 @ [grid]\<rparr>))
                     else (Inr images, w2\<lparr>heap := h3\<rparr>)))"

section \<open>Well-formed images\<close>

text \<open>
  The invariant of every image object that the library creates: each side is from 0 to
  the largest C \<^verbatim>\<open>int\<close>.
\<close>

definition valid_image :: "image \<Rightarrow> bool" where
  "valid_image im \<longleftrightarrow>
     0 \<le> width im \<and> width im \<le> c_int_max \<and> 0 \<le> height im \<and> height im \<le> c_int_max"


section \<open>The scaled size as the specification words it\<close>

text \<open>
  For comparison with \<open>new_size\<close>: the exact aspect ratio, and rounding to the nearest
  integer where the notebook truncates.
\<close>

definition spec_new_size :: "int \<Rightarrow> int \<Rightarrow> int \<Rightarrow> int \<times> int" where
  "spec_new_size image_width image_height target_size =
     (let aspect_ratio = of_int image_width / of_int image_height
      in if 1 < aspect_ratio
         then (target_size, round_half_even (of_int target_size / aspect_ratio))
         else (round_half_even (of_int target_size * aspect_ratio), target_size))"


section \<open>The inputs that \<^verbatim>\<open>resize_and_pad\<close> can scale\<close>

text \<open>
  Positive sides, a positive target size that the image library accepts, and scaled
  sides of at least 1, the least that the resize step accepts.
\<close>

definition normalisable :: "image \<Rightarrow> int \<Rightarrow> bool" where
  "normalisable im target_size \<longleftrightarrow>
     0 < width im \<and> 0 < height im \<and> 0 < target_size \<and> target_size \<le> c_int_max \<and>
     (case new_size (width im) (height im) target_size of
        Inl e \<Rightarrow> False
      | Inr (new_width, new_height) \<Rightarrow> 1 \<le> new_width \<and> 1 \<le> new_height)"


section \<open>Powers of two and rounding to an integer\<close>

lemma pow2_pos: "0 < pow2 k"
  by (simp add: pow2_def)

lemma pow2_add: "pow2 (a + b) = pow2 a * pow2 b"
  by (simp add: pow2_def power_int_add)

lemma pow2_mono: "a \<le> b \<Longrightarrow> pow2 a \<le> pow2 b"
  by (simp add: pow2_def power_int_increasing)

lemma pow2_nonneg: "0 \<le> k \<Longrightarrow> pow2 k = of_int (2 ^ nat k)"
  by (simp add: pow2_def power_int_nonneg_exp)

lemma pow2_minus: "pow2 (- k) = 1 / pow2 k"
  by (simp add: pow2_def power_int_minus_divide)

lemma pow2_numeral: "pow2 (numeral n) = 2 ^ numeral n"
  by (simp add: pow2_def)

lemma pow2_neg_numeral: "pow2 (- numeral n) = 1 / 2 ^ numeral n"
  by (simp add: pow2_def power_int_minus_divide)

lemma pow2_0: "pow2 0 = 1"
  by (simp add: pow2_def)

lemma pow2_1: "pow2 1 = 2"
  by (simp add: pow2_def)

lemma pow2_m1: "pow2 (- 1) = 1 / 2"
  by (simp add: pow2_def power_int_minus_divide)

lemmas pow2_eval = pow2_numeral pow2_neg_numeral pow2_0 pow2_1


lemma round_half_even_of_int: "round_half_even (of_int n) = n"
  by (simp add: round_half_even_def)

lemma round_half_even_le: "q \<le> of_int n \<Longrightarrow> round_half_even q \<le> n"
proof -
  assume q: "q \<le> of_int n"
  have fl: "\<lfloor>q\<rfloor> \<le> n" using q by (simp add: floor_le_iff) 
  show ?thesis
  proof (cases "\<lfloor>q\<rfloor> = n")
    case True
    then have "q = of_int n" using q of_int_floor_le[of q] by simp
    then show ?thesis by (simp add: round_half_even_of_int)
  next
    case False
    with fl have "\<lfloor>q\<rfloor> + 1 \<le> n" by simp
    then show ?thesis by (simp add: round_half_even_def Let_def)
  qed
qed

lemma round_half_even_ge: "of_int n \<le> q \<Longrightarrow> n \<le> round_half_even q"
proof -
  assume "of_int n \<le> q"
  then have "n \<le> \<lfloor>q\<rfloor>" by (simp add: le_floor_iff)
  then show ?thesis by (simp add: round_half_even_def Let_def)
qed

lemma round_half_even_minus: "round_half_even (- q) = - round_half_even q"
proof (cases "q = of_int \<lfloor>q\<rfloor>")
  case True
  then obtain n where "q = of_int n" by metis
  then have "- q = of_int (- n)" by simp
  then show ?thesis unfolding \<open>q = of_int n\<close> by (metis round_half_even_of_int)
next
  case False
  then have lt: "of_int \<lfloor>q\<rfloor> < q" using of_int_floor_le[of q] by (auto simp: less_le)
  have "\<lfloor>- q\<rfloor> = - \<lfloor>q\<rfloor> - 1"
  proof (rule floor_unique)
    show "of_int (- \<lfloor>q\<rfloor> - 1) \<le> - q" using floor_correct[of q] by simp
    show "- q < of_int (- \<lfloor>q\<rfloor> - 1) + 1" using lt by simp
  qed
  then show ?thesis
    using lt by (auto simp: round_half_even_def Let_def)
qed

lemma round_half_even_near:
  assumes "of_int n - 1 / 2 < q" "q < of_int n + 1 / 2"
  shows "round_half_even q = n"
proof (cases "of_int n \<le> q")
  case True
  then have "\<lfloor>q\<rfloor> = n" using assms(2) by (intro floor_unique) simp_all
  then show ?thesis using assms(2) by (simp add: round_half_even_def)
next
  case False
  then have "\<lfloor>q\<rfloor> = n - 1" using assms(1) by (intro floor_unique) simp_all
  then show ?thesis using assms(1) by (simp add: round_half_even_def)
qed


lemma trunc_of_int: "trunc (of_int n) = n"
  by (simp add: trunc_def)

lemma trunc_bounds_nonneg: "0 \<le> x \<Longrightarrow> x \<le> of_int n \<Longrightarrow> 0 \<le> trunc x \<and> trunc x \<le> n"
  by (simp add: trunc_def floor_le_iff)

lemma trunc_bounds_nonpos: "x \<le> 0 \<Longrightarrow> of_int n \<le> x \<Longrightarrow> n \<le> trunc x \<and> trunc x \<le> 0"
  by (auto simp: trunc_def le_ceiling_iff ceiling_le_iff)

lemma trunc_eval: "of_int n \<le> x \<Longrightarrow> x < of_int n + 1 \<Longrightarrow> 0 \<le> n \<Longrightarrow> trunc x = n"
  by (simp add: trunc_def floor_unique)


section \<open>Rounding to binary64\<close>

text \<open>The exponent found by the search is the one of the binade of \<open>x\<close>.\<close>

lemma ulp_from_ge: "e \<le> ulp_from e x"
  by (induction e x rule: ulp_from.induct) (subst ulp_from.simps, auto)

lemma ulp_from_upper: "e \<le> r \<Longrightarrow> \<bar>x\<bar> < pow2 (r + 53) \<Longrightarrow> ulp_from e x \<le> r"
proof (induction e x rule: ulp_from.induct)
  case (1 e x)
  show ?case
  proof (cases "971 \<le> e \<or> \<bar>x\<bar> < pow2 (e + 53)")
    case True
    then show ?thesis using 1(2) by (subst ulp_from.simps) simp
  next
    case False
    then have "e \<noteq> r" using 1(3) by auto
    then have "e + 1 \<le> r" using 1(2) by simp
    then show ?thesis using False 1(1) 1(3) by (subst ulp_from.simps) simp
  qed
qed

lemma ulp_from_small: "ulp_from e x < 971 \<Longrightarrow> \<bar>x\<bar> < pow2 (ulp_from e x + 53)"
proof (induction e x rule: ulp_from.induct)
  case (1 e x)
  show ?case
  proof (cases "971 \<le> e \<or> \<bar>x\<bar> < pow2 (e + 53)")
    case True
    then have eq: "ulp_from e x = e" by (subst ulp_from.simps) simp
    then show ?thesis using True 1(2) by auto
  next
    case False
    then have eq: "ulp_from e x = ulp_from (e + 1) x" by (subst ulp_from.simps) simp
    then show ?thesis using False 1 by simp
  qed
qed

lemma ulp_from_large: "e < ulp_from e x \<Longrightarrow> pow2 (ulp_from e x + 52) \<le> \<bar>x\<bar>"
proof (induction e x rule: ulp_from.induct)
  case (1 e x)
  show ?case
  proof (cases "971 \<le> e \<or> \<bar>x\<bar> < pow2 (e + 53)")
    case True
    then have eq: "ulp_from e x = e" by (subst ulp_from.simps) simp
    then show ?thesis using 1(2) by simp
  next
    case False
    then have eq: "ulp_from e x = ulp_from (e + 1) x" by (subst ulp_from.simps) simp
    show ?thesis
    proof (cases "e + 1 < ulp_from (e + 1) x")
      case True
      then show ?thesis using False 1(1) eq by simp
    next
      case False
      then have "ulp_from (e + 1) x = e + 1" using ulp_from_ge[of "e + 1" x] by simp
      then show ?thesis using \<open>\<not> (971 \<le> e \<or> \<bar>x\<bar> < pow2 (e + 53))\<close> eq by (simp add: add.commute add.left_commute)
    qed
  qed
qed

lemma ulp_from_minus: "ulp_from e (- x) = ulp_from e x"
  by (induction e x rule: ulp_from.induct) (subst (1 2) ulp_from.simps, simp)

lemma ulp_exponent_minus: "ulp_exponent (- x) = ulp_exponent x"
  by (simp add: ulp_exponent_def ulp_from_minus)

lemma ulp_exponent_binade:
  assumes "pow2 k \<le> \<bar>x\<bar>" "\<bar>x\<bar> < pow2 (k + 1)" "- 1022 \<le> k" "k \<le> 1023"
  shows "ulp_exponent x = k - 52"
proof -
  let ?u = "ulp_exponent x"
  have up: "?u \<le> k - 52"
    unfolding ulp_exponent_def using assms by (intro ulp_from_upper) (simp_all add: ac_simps)
  have "\<not> ?u < k - 52"
  proof
    assume lt: "?u < k - 52"
    then have "?u < 971" using assms by simp
    then have "\<bar>x\<bar> < pow2 (?u + 53)" unfolding ulp_exponent_def by (rule ulp_from_small)
    moreover have "pow2 (?u + 53) \<le> pow2 k" using lt by (intro pow2_mono) simp
    ultimately show False using assms(1) by simp
  qed
  then show ?thesis using up by simp
qed


text \<open>
  Rounding is odd, keeps the sign, and is computed on a concrete number from its binade
  and the nearest multiple of the unit in the last place.
\<close>

lemma double_round_minus: "double_round (- x) = - double_round x"
  by (simp add: double_round_def Let_def ulp_exponent_minus round_half_even_minus)

lemma double_round_nonneg: "0 \<le> x \<Longrightarrow> 0 \<le> double_round x"
proof -
  assume "0 \<le> x"
  then have "of_int 0 \<le> x / pow2 (ulp_exponent x)"
    using pow2_pos[of "ulp_exponent x"] by (simp add: divide_nonneg_pos)
  then have "0 \<le> round_half_even (x / pow2 (ulp_exponent x))" by (rule round_half_even_ge)
  then show ?thesis using pow2_pos[of "ulp_exponent x"] by (simp add: double_round_def Let_def)
qed

lemma double_round_nonpos: "x \<le> 0 \<Longrightarrow> double_round x \<le> 0"
  using double_round_nonneg[of "- x"] by (simp add: double_round_minus)

lemma abs_double_round: "\<bar>double_round x\<bar> = double_round \<bar>x\<bar>"
  using double_round_nonneg[of x] double_round_nonneg[of "- x"] double_round_minus[of x]
  by (cases "0 \<le> x") (simp_all add: abs_if)

lemma double_round_binade:
  assumes "pow2 k \<le> \<bar>x\<bar>" "\<bar>x\<bar> < pow2 (k + 1)" "- 1022 \<le> k" "k \<le> 1023"
  shows "double_round x = of_int (round_half_even (x / pow2 (k - 52))) * pow2 (k - 52)"
  using ulp_exponent_binade[OF assms] by (simp add: double_round_def Let_def)

lemma double_round_eval:
  assumes "pow2 k \<le> \<bar>x\<bar>" "\<bar>x\<bar> < pow2 (k + 1)" "- 1022 \<le> k" "k \<le> 1023"
    and "of_int n - 1 / 2 < x / pow2 (k - 52)" "x / pow2 (k - 52) < of_int n + 1 / 2"
  shows "double_round x = of_int n * pow2 (k - 52)"
  using double_round_binade[OF assms(1-4)] round_half_even_near[OF assms(5,6)] by simp


text \<open>Integers of magnitude up to \<open>2 ^ 53\<close> are binary64 values, and rounding respects them as bounds.\<close>

lemma int_over_pow2: "u \<le> 0 \<Longrightarrow> of_int n / pow2 u = of_int (n * 2 ^ nat (- u))"
proof -
  assume "u \<le> 0"
  then have "pow2 (- u) = of_int (2 ^ nat (- u))" by (intro pow2_nonneg) simp
  moreover have "of_int n / pow2 u = of_int n * pow2 (- u)" by (simp add: pow2_minus)
  ultimately show ?thesis by simp
qed

lemma double_round_int_small:
  assumes "\<bar>n\<bar> < 2 ^ 53"
  shows "double_round (of_int n) = of_int n"
proof -
  let ?u = "ulp_exponent (of_int n)"
  have "\<bar>of_int n :: rat\<bar> < pow2 (0 + 53)"
  proof -
    have "\<bar>of_int n :: rat\<bar> = of_int \<bar>n\<bar>" by simp
    also have "\<dots> < of_int (2 ^ 53)" using assms by (simp only: of_int_less_iff)
    also have "\<dots> = pow2 (0 + 53)" by (simp add: pow2_def)
    finally show ?thesis .
  qed
  then have u: "?u \<le> 0" unfolding ulp_exponent_def by (intro ulp_from_upper) simp_all
  have "of_int (round_half_even (of_int n / pow2 ?u)) * pow2 ?u = of_int n / pow2 ?u * pow2 ?u"
    by (simp only: int_over_pow2[OF u] round_half_even_of_int)
  also have "\<dots> = of_int n" using pow2_pos[of ?u] by simp
  finally show ?thesis by (simp add: double_round_def Let_def)
qed

lemma double_round_pow53: "double_round (of_int (2 ^ 53)) = of_int (2 ^ 53)"
proof -
  have "double_round (of_int (2 ^ 53)) =
      of_int (round_half_even (of_int (2 ^ 53) / pow2 (53 - 52))) * pow2 (53 - 52)"
    by (rule double_round_binade) (simp_all add: pow2_def)
  also have "\<dots> = of_int (2 ^ 53)"
    by (simp add: pow2_def round_half_even_def)
  finally show ?thesis .
qed

lemma double_round_int:
  assumes "\<bar>n\<bar> \<le> 2 ^ 53"
  shows "double_round (of_int n) = of_int n"
proof -
  consider "\<bar>n\<bar> < 2 ^ 53" | "n = 2 ^ 53" | "n = - (2 ^ 53)" using assms by linarith
  then show ?thesis
  proof cases
    case 1
    then show ?thesis by (rule double_round_int_small)
  next
    case 2
    then show ?thesis using double_round_pow53 by simp
  next
    case 3
    then have "double_round (of_int n) = - double_round (of_int (2 ^ 53))"
      using double_round_minus[of "of_int (2 ^ 53)"] by simp
    then show ?thesis using 3 double_round_pow53 by simp
  qed
qed

lemma double_round_numeral: "numeral n \<le> (2 ^ 53 :: int) \<Longrightarrow> double_round (numeral n) = numeral n"
  using double_round_int[of "numeral n"] by simp

lemma double_round_0: "double_round 0 = 0"
  using double_round_int[of 0] by simp

lemma double_round_1: "double_round 1 = 1"
  using double_round_int[of 1] by simp

lemma double_round_le_int:
  assumes "0 \<le> x" "x \<le> of_int n" "n \<le> 2 ^ 53"
  shows "double_round x \<le> of_int n"
proof -
  let ?u = "ulp_exponent x"
  show ?thesis
  proof (cases "?u \<le> 0")
    case True
    have "x / pow2 ?u \<le> of_int n / pow2 ?u"
      using assms(2) pow2_pos[of ?u] by (simp add: divide_right_mono)
    then have "x / pow2 ?u \<le> of_int (n * 2 ^ nat (- ?u))"
      by (simp only: int_over_pow2[OF True])
    then have "round_half_even (x / pow2 ?u) \<le> n * 2 ^ nat (- ?u)"
      by (rule round_half_even_le)
    then have "(of_int (round_half_even (x / pow2 ?u)) :: rat) \<le> of_int (n * 2 ^ nat (- ?u))"
      by (simp only: of_int_le_iff)
    then have "of_int (round_half_even (x / pow2 ?u)) * pow2 ?u \<le> of_int n / pow2 ?u * pow2 ?u"
      using pow2_pos[of ?u] by (simp only: int_over_pow2[OF True] mult_le_cancel_right_pos)
    then show ?thesis using pow2_pos[of ?u] by (simp add: double_round_def Let_def)
  next
    case False
    then have "- 1074 < ulp_from (- 1074) x" by (simp add: ulp_exponent_def)
    then have low: "pow2 (?u + 52) \<le> \<bar>x\<bar>" unfolding ulp_exponent_def by (rule ulp_from_large)
    have "pow2 53 \<le> pow2 (?u + 52)" using False by (intro pow2_mono) simp
    then have "pow2 53 \<le> x" using low assms(1) by simp
    moreover have "(of_int n :: rat) \<le> of_int (2 ^ 53)" using assms(3) by (simp only: of_int_le_iff)
    moreover have "pow2 53 = of_int (2 ^ 53)" by (simp add: pow2_def)
    ultimately have "x = of_int (2 ^ 53)" "of_int n = x" using assms(2) by simp_all
    then show ?thesis using double_round_pow53 by simp
  qed
qed

lemma double_round_ge_int:
  assumes "x \<le> 0" "of_int n \<le> x" "- (2 ^ 53) \<le> n"
  shows "of_int n \<le> double_round x"
proof -
  have "double_round (- x) \<le> of_int (- n)"
    using assms by (intro double_round_le_int) simp_all
  then show ?thesis by (simp add: double_round_minus)
qed

lemma double_round_ge_int_nonneg:
  assumes "0 \<le> n" "of_int n \<le> x" "n \<le> 2 ^ 53"
  shows "of_int n \<le> double_round x"
proof -
  let ?u = "ulp_exponent x"
  have x0: "0 \<le> x" using assms(1,2) by (meson of_int_0_le_iff order_trans)
  show ?thesis
  proof (cases "?u \<le> 0")
    case True
    have "of_int n / pow2 ?u \<le> x / pow2 ?u"
      using assms(2) pow2_pos[of ?u] by (simp add: divide_right_mono)
    then have "of_int (n * 2 ^ nat (- ?u)) \<le> x / pow2 ?u"
      by (simp only: int_over_pow2[OF True])
    then have "n * 2 ^ nat (- ?u) \<le> round_half_even (x / pow2 ?u)"
      by (rule round_half_even_ge)
    then have "(of_int (n * 2 ^ nat (- ?u)) :: rat) \<le> of_int (round_half_even (x / pow2 ?u))"
      by (simp only: of_int_le_iff)
    then have "of_int n / pow2 ?u * pow2 ?u \<le> of_int (round_half_even (x / pow2 ?u)) * pow2 ?u"
      using pow2_pos[of ?u] by (simp only: int_over_pow2[OF True] mult_le_cancel_right_pos)
    then show ?thesis using pow2_pos[of ?u] by (simp add: double_round_def Let_def)
  next
    case False
    then have "- 1074 < ulp_from (- 1074) x" by (simp add: ulp_exponent_def)
    then have low: "pow2 (?u + 52) \<le> \<bar>x\<bar>" unfolding ulp_exponent_def by (rule ulp_from_large)
    then have "pow2 52 * pow2 ?u \<le> x" using x0 by (simp add: pow2_add mult.commute)
    then have "pow2 52 \<le> x / pow2 ?u" using pow2_pos[of ?u] by (simp add: pos_le_divide_eq)
    moreover have "pow2 52 = of_int (2 ^ 52)" by (simp add: pow2_eval)
    ultimately have "2 ^ 52 \<le> round_half_even (x / pow2 ?u)" by (intro round_half_even_ge) simp
    then have "(of_int (2 ^ 52) :: rat) \<le> of_int (round_half_even (x / pow2 ?u))"
      by (simp only: of_int_le_iff)
    then have "of_int (2 ^ 52) * pow2 ?u \<le> double_round x"
      using pow2_pos[of ?u] by (simp add: double_round_def Let_def)
    moreover have "pow2 1 \<le> pow2 ?u" using False by (intro pow2_mono) simp
    then have "(of_int (2 ^ 52) :: rat) * pow2 1 \<le> of_int (2 ^ 52) * pow2 ?u" by simp
    moreover have "(of_int (2 ^ 52) :: rat) * pow2 1 = of_int (2 ^ 53)" by (simp add: pow2_def)
    moreover have "(of_int n :: rat) \<le> of_int (2 ^ 53)" using assms(3) by (simp only: of_int_le_iff)
    ultimately show ?thesis by linarith
  qed
qed

lemma not_overflows:
  assumes "\<bar>x\<bar> \<le> of_int n" "n \<le> 2 ^ 53"
  shows "\<not> overflows (double_round x)"
proof -
  have "double_round \<bar>x\<bar> \<le> of_int n" using assms by (intro double_round_le_int) simp_all
  also have "(of_int n :: rat) \<le> of_int (2 ^ 53)" using assms(2) by (simp only: of_int_le_iff)
  also have "\<dots> < pow2 1024" by (simp add: pow2_eval)
  finally show ?thesis by (simp add: overflows_def abs_double_round)
qed


text \<open>The roundings that the examples below need.\<close>

lemma dr_half: "double_round (1 / 2) = 1 / 2"
  using double_round_eval[of "- 1" "1 / 2" "2 ^ 52"] by (simp add: pow2_eval pow2_m1)

lemma dr_3_2: "double_round (3 / 2) = 3 / 2"
  using double_round_eval[of 0 "3 / 2" "3 * 2 ^ 51"] by (simp add: pow2_eval)

lemma dr_200_3: "double_round (200 / 3) = 4691249611844267 / 70368744177664"
  using double_round_eval[of 6 "200 / 3" 4691249611844267] by (simp add: pow2_eval)

lemma dr_tenth: "double_round (1 / 10) = 3602879701896397/36028797018963968"
  using double_round_eval[of "- 4" "1 / 10" 7205759403792794] by (simp add: pow2_eval)

lemma dr_300th: "double_round (1 / 300) = 7686143364045647 / 2305843009213693952"
  using double_round_eval[of "- 9" "1 / 300" 7686143364045647] by (simp add: pow2_eval)

lemma dr_100_300th:
  "double_round (192153584101141175 / 576460752303423488)
     = 3002399751580331 / 9007199254740992"
  using double_round_eval[of "- 2" "192153584101141175 / 576460752303423488"
      6004799503160662]
  by (simp add: pow2_eval pow2_m1)

lemma dr_big: "double_round 18014398509481987 = 18014398509481988"
  using double_round_eval[of 54 18014398509481987 4503599627370497] by (simp add: pow2_eval)

lemma dr_big_exact: "double_round 18014398509481988 = 18014398509481988"
  using double_round_eval[of 54 18014398509481988 4503599627370497] by (simp add: pow2_eval)


section \<open>The scaled size\<close>

lemma float_of_int_exact: "\<bar>n\<bar> \<le> 2 ^ 53 \<Longrightarrow> float_of_int n = Inr (of_int n)"
  using not_overflows[of "of_int n" "\<bar>n\<bar>"]
  by (simp add: float_of_int_def Let_def double_round_int)

lemma new_size_unfold:
  assumes "h \<noteq> 0" "\<bar>T\<bar> \<le> 2 ^ 53" "a = double_round (of_int w / of_int h)" "\<not> overflows a"
  shows "new_size w h T =
    (if 1 < a then
       (if overflows (double_round (of_int T / a)) then Inl OverflowError
        else Inr (T, trunc (double_round (of_int T / a))))
     else
       (if overflows (double_round (of_int T * a)) then Inl OverflowError
        else Inr (trunc (double_round (of_int T * a)), T)))"
  using assms
  by (auto simp: new_size_def and_then_def int_truediv_def float_of_int_exact float_div_def
      float_mul_def int_of_float_def Let_def)

lemma quotient_bounds:
  assumes "0 < w" "0 < h"
  shows "0 \<le> (of_int w / of_int h :: rat)" "(of_int w / of_int h :: rat) \<le> of_int w"
proof -
  show "0 \<le> (of_int w / of_int h :: rat)" using assms by simp
  have "(1 :: rat) \<le> of_int h" using assms(2) by simp
  then have "(of_int w :: rat) / of_int h \<le> of_int w / 1"
    using assms(1) by (intro divide_left_mono) simp_all
  then show "(of_int w / of_int h :: rat) \<le> of_int w" by simp
qed

lemma shrink_div:
  fixes t a :: rat
  assumes "1 < a"
  shows "\<bar>t / a\<bar> \<le> \<bar>t\<bar>"
proof -
  have "\<bar>t\<bar> / a \<le> \<bar>t\<bar> / 1" using assms by (intro divide_left_mono) simp_all
  then show ?thesis using assms by simp
qed

lemma shrink_mul:
  fixes t a :: rat
  assumes "0 \<le> a" "a \<le> 1"
  shows "\<bar>t * a\<bar> \<le> \<bar>t\<bar>"
proof -
  have "\<bar>t\<bar> * a \<le> \<bar>t\<bar> * 1" using assms by (intro mult_left_mono) simp_all
  then show ?thesis using assms by (simp add: abs_mult)
qed

lemma aspect_nonneg: "0 < w \<Longrightarrow> 0 < h \<Longrightarrow> 0 \<le> double_round (of_int w / of_int h)"
  by (intro double_round_nonneg) simp

lemma aspect_finite:
  "0 < w \<Longrightarrow> w \<le> 2 ^ 53 \<Longrightarrow> 0 < h \<Longrightarrow> \<not> overflows (double_round (of_int w / of_int h))"
  using quotient_bounds[of w h] by (intro not_overflows[of _ w]) simp_all


text \<open>
  Without overflow the scaled size has a closed form, and for sides up to \<open>2 ^ 52\<close> the test
  \<^verbatim>\<open>aspect_ratio > 1\<close> on the double agrees with the comparison of the integer sides.
\<close>

lemma new_size_closed_form:
  assumes "0 < h" "0 \<le> double_round (of_int w / of_int h)"
    "\<not> overflows (double_round (of_int w / of_int h))" "\<bar>T\<bar> \<le> 2 ^ 53"
  shows "new_size w h T =
    (if 1 < double_round (of_int w / of_int h)
     then Inr (T, trunc (double_round (of_int T / double_round (of_int w / of_int h))))
     else Inr (trunc (double_round (of_int T * double_round (of_int w / of_int h))), T))"
proof -
  let ?a = "double_round (of_int w / of_int h)"
  have T: "\<bar>of_int T :: rat\<bar> \<le> of_int \<bar>T\<bar>" by simp
  have 1: "\<not> overflows (double_round (of_int T / ?a))" if "1 < ?a"
    using shrink_div[OF that, of "of_int T"] T assms(4) by (intro not_overflows[of _ "\<bar>T\<bar>"]) simp_all
  have 2: "\<not> overflows (double_round (of_int T * ?a))" if "\<not> 1 < ?a"
    using shrink_mul[of ?a "of_int T"] that assms(2) T assms(4)
    by (intro not_overflows[of _ "\<bar>T\<bar>"]) simp_all
  show ?thesis
    using assms 1 2 by (subst new_size_unfold[where a = ?a]) auto
qed

lemma aspect_gt_one_iff:
  assumes "0 < w" "0 < h" "h \<le> 2 ^ 52"
  shows "1 < double_round (of_int w / of_int h) \<longleftrightarrow> h < w"
proof
  let ?x = "of_int w / of_int h :: rat"
  assume "1 < double_round ?x"
  show "h < w"
  proof (rule ccontr)
    assume "\<not> h < w"
    then have "?x \<le> of_int 1" using assms by (simp add: pos_divide_le_eq)
    then have "double_round ?x \<le> of_int 1"
      using assms by (intro double_round_le_int) simp_all
    then show False using \<open>1 < double_round ?x\<close> by simp
  qed
next
  let ?x = "of_int w / of_int h :: rat"
  assume "h < w"
  then have "h + 1 \<le> w" by simp
  then have "(of_int h + 1 :: rat) \<le> of_int w" by (metis of_int_le_iff of_int_add of_int_1)
  then have "(of_int h + 1) / of_int h \<le> ?x" using assms by (simp add: divide_right_mono)
  then have x1: "1 + 1 / of_int h \<le> ?x" using assms by (simp add: add_divide_distrib)
  have "(of_int h :: rat) \<le> of_int (2 ^ 52)" using assms(3) by (simp only: of_int_le_iff)
  then have "1 / (2 ^ 52 :: rat) \<le> 1 / of_int h" using assms by (intro divide_left_mono) simp_all
  then have x2: "1 + 1 / 2 ^ 52 \<le> ?x" using x1 by linarith
  show "1 < double_round ?x"
  proof (cases "?x < 2")
    case True
    have "(0 :: rat) \<le> 1 / 2 ^ 52" by simp
    then have "1 \<le> ?x" using x2 by linarith
    moreover have ax: "\<bar>?x\<bar> = ?x" using assms by simp
    ultimately have b1: "pow2 0 \<le> \<bar>?x\<bar>" by (simp only: ax pow2_0)
    have "pow2 (0 + 1) = 2" by (simp add: pow2_eval)
    then have b2: "\<bar>?x\<bar> < pow2 (0 + 1)" using True by (simp only: ax)
    have "double_round ?x = of_int (round_half_even (?x / pow2 (0 - 52))) * pow2 (0 - 52)"
      using b1 b2 by (rule double_round_binade) simp_all
    moreover have "2 ^ 52 + 1 \<le> round_half_even (?x / pow2 (0 - 52))"
    proof (rule round_half_even_ge)
      have "(1 + 1 / 2 ^ 52) * 2 ^ 52 \<le> ?x * 2 ^ 52" using x2 by (simp only: mult_le_cancel_right_pos zero_less_numeral zero_less_power)
      then show "of_int (2 ^ 52 + 1) \<le> ?x / pow2 (0 - 52)" by (simp add: pow2_eval)
    qed
    then have "(of_int (2 ^ 52 + 1) :: rat) \<le> of_int (round_half_even (?x / pow2 (0 - 52)))"
      by (simp only: of_int_le_iff)
    then have "(of_int (2 ^ 52 + 1) :: rat) * pow2 (0 - 52) \<le> of_int (round_half_even (?x / pow2 (0 - 52))) * pow2 (0 - 52)"
      using pow2_pos[of "0 - 52"] by (simp only: mult_le_cancel_right_pos)
    moreover have "1 < (of_int (2 ^ 52 + 1) :: rat) * pow2 (0 - 52)" by (simp add: pow2_eval)
    ultimately show ?thesis by linarith
  next
    case False
    then have "of_int 2 \<le> ?x" by simp
    then have "of_int 2 \<le> double_round ?x" by (intro double_round_ge_int_nonneg) simp_all
    then show ?thesis by simp
  qed
qed

lemma new_size_returns:
  assumes "0 < w" "w \<le> 2 ^ 53" "0 < h" "\<bar>T\<bar> \<le> 2 ^ 53"
  shows "\<exists>nw nh. new_size w h T = Inr (nw, nh)"
  using new_size_closed_form[OF assms(3) aspect_nonneg[OF assms(1,3)]
      aspect_finite[OF assms(1,2,3)] assms(4)]
  by (cases "1 < double_round (of_int w / of_int h)") simp_all

lemma new_size_within:
  assumes "0 < w" "0 < h" "0 < T" "T \<le> 2 ^ 53" "new_size w h T = Inr (nw, nh)"
  shows "0 \<le> nw \<and> nw \<le> T \<and> 0 \<le> nh \<and> nh \<le> T"
proof -
  let ?a = "double_round (of_int w / of_int h)"
  have a0: "0 \<le> ?a" using assms(1,2) by (rule aspect_nonneg)
  have fin: "\<not> overflows ?a"
    using assms(5) assms(2)
    by (auto simp: new_size_def and_then_def int_truediv_def Let_def split: if_splits)
  have T: "\<bar>T\<bar> \<le> 2 ^ 53" using assms(3,4) by simp
  have closed: "new_size w h T =
      (if 1 < ?a then Inr (T, trunc (double_round (of_int T / ?a)))
       else Inr (trunc (double_round (of_int T * ?a)), T))"
    using assms(2) a0 fin T by (rule new_size_closed_form)
  show ?thesis
  proof (cases "1 < ?a")
    case True
    have q0: "0 \<le> (of_int T / ?a :: rat)" using assms(3) a0 by simp
    have "\<bar>of_int T / ?a\<bar> \<le> \<bar>of_int T :: rat\<bar>" using True by (rule shrink_div)
    moreover have "\<bar>of_int T / ?a\<bar> = of_int T / ?a" using q0 by (rule abs_of_nonneg)
    moreover have "\<bar>of_int T :: rat\<bar> = of_int T" using assms(3) by simp
    ultimately have q1: "of_int T / ?a \<le> (of_int T :: rat)" by linarith
    have "0 \<le> double_round (of_int T / ?a)" using q0 by (rule double_round_nonneg)
    moreover have "double_round (of_int T / ?a) \<le> of_int T"
      using q0 q1 assms(4) by (rule double_round_le_int)
    ultimately have "0 \<le> trunc (double_round (of_int T / ?a)) \<and>
        trunc (double_round (of_int T / ?a)) \<le> T"
      by (rule trunc_bounds_nonneg)
    then show ?thesis using closed True assms(3,5) by simp
  next
    case False
    have q0: "0 \<le> (of_int T * ?a :: rat)" using assms(3) a0 by simp
    have "\<bar>of_int T * ?a\<bar> \<le> \<bar>of_int T :: rat\<bar>" using a0 False by (intro shrink_mul) simp_all
    moreover have "\<bar>of_int T * ?a\<bar> = of_int T * ?a" using q0 by (rule abs_of_nonneg)
    moreover have "\<bar>of_int T :: rat\<bar> = of_int T" using assms(3) by simp
    ultimately have q1: "of_int T * ?a \<le> (of_int T :: rat)" by linarith
    have "0 \<le> double_round (of_int T * ?a)" using q0 by (rule double_round_nonneg)
    moreover have "double_round (of_int T * ?a) \<le> of_int T"
      using q0 q1 assms(4) by (rule double_round_le_int)
    ultimately have "0 \<le> trunc (double_round (of_int T * ?a)) \<and>
        trunc (double_round (of_int T * ?a)) \<le> T"
      by (rule trunc_bounds_nonneg)
    then show ?thesis using closed False assms(3,5) by simp
  qed
qed

lemma new_size_within_neg:
  assumes "0 < w" "0 < h" "T \<le> 0" "- (2 ^ 53) \<le> T" "new_size w h T = Inr (nw, nh)"
  shows "T \<le> nw \<and> nw \<le> 0 \<and> T \<le> nh \<and> nh \<le> 0"
proof -
  let ?a = "double_round (of_int w / of_int h)"
  have a0: "0 \<le> ?a" using assms(1,2) by (rule aspect_nonneg)
  have fin: "\<not> overflows ?a"
    using assms(5) assms(2)
    by (auto simp: new_size_def and_then_def int_truediv_def Let_def split: if_splits)
  have T: "\<bar>T\<bar> \<le> 2 ^ 53" using assms(3,4) by simp
  have closed: "new_size w h T =
      (if 1 < ?a then Inr (T, trunc (double_round (of_int T / ?a)))
       else Inr (trunc (double_round (of_int T * ?a)), T))"
    using assms(2) a0 fin T by (rule new_size_closed_form)
  have T0: "(of_int T :: rat) \<le> 0" using assms(3) by simp
  show ?thesis
  proof (cases "1 < ?a")
    case True
    have q0: "(of_int T / ?a :: rat) \<le> 0" using T0 a0 by (simp add: divide_nonpos_nonneg)
    have "\<bar>of_int T / ?a\<bar> \<le> \<bar>of_int T :: rat\<bar>" using True by (rule shrink_div)
    moreover have "\<bar>of_int T / ?a\<bar> = - (of_int T / ?a)" using q0 by (rule abs_of_nonpos)
    moreover have "\<bar>of_int T :: rat\<bar> = - of_int T" using T0 by (rule abs_of_nonpos)
    ultimately have q1: "(of_int T :: rat) \<le> of_int T / ?a" by linarith
    have "double_round (of_int T / ?a) \<le> 0" using q0 by (rule double_round_nonpos)
    moreover have "of_int T \<le> double_round (of_int T / ?a)"
      using q0 q1 assms(4) by (rule double_round_ge_int)
    ultimately have "T \<le> trunc (double_round (of_int T / ?a)) \<and>
        trunc (double_round (of_int T / ?a)) \<le> 0"
      by (rule trunc_bounds_nonpos)
    then show ?thesis using closed True assms(3,5) by simp
  next
    case False
    have q0: "(of_int T * ?a :: rat) \<le> 0" using T0 a0 by (simp add: mult_nonpos_nonneg)
    have "\<bar>of_int T * ?a\<bar> \<le> \<bar>of_int T :: rat\<bar>" using a0 False by (intro shrink_mul) simp_all
    moreover have "\<bar>of_int T * ?a\<bar> = - (of_int T * ?a)" using q0 by (rule abs_of_nonpos)
    moreover have "\<bar>of_int T :: rat\<bar> = - of_int T" using T0 by (rule abs_of_nonpos)
    ultimately have q1: "(of_int T :: rat) \<le> of_int T * ?a" by linarith
    have "double_round (of_int T * ?a) \<le> 0" using q0 by (rule double_round_nonpos)
    moreover have "of_int T \<le> double_round (of_int T * ?a)"
      using q0 q1 assms(4) by (rule double_round_ge_int)
    ultimately have "T \<le> trunc (double_round (of_int T * ?a)) \<and>
        trunc (double_round (of_int T * ?a)) \<le> 0"
      by (rule trunc_bounds_nonpos)
    then show ?thesis using closed False assms(3,5) by simp
  qed
qed

lemma new_size_shape:
  assumes "h \<noteq> 0" "\<not> overflows (double_round (of_int w / of_int h))"
  shows "new_size w h T = Inl OverflowError \<or> (\<exists>nh. new_size w h T = Inr (T, nh)) \<or>
         (\<exists>nw. new_size w h T = Inr (nw, T))"
  using assms
  by (auto simp: new_size_def and_then_def int_truediv_def float_of_int_def float_div_def
      float_mul_def int_of_float_def Let_def split: sum.splits pyfloat.splits)

lemma new_size_zero_height: "new_size w 0 T = Inl ZeroDivisionError"
  by (simp add: new_size_def and_then_def int_truediv_def)


lemma new_size_3_2: "new_size 3 2 100 = Inr (100, 66)"
proof -
  have "new_size 3 2 100 =
    (if 1 < double_round (of_int 3 / of_int 2)
     then Inr (100, trunc (double_round (of_int 100 / double_round (of_int 3 / of_int 2))))
     else Inr (trunc (double_round (of_int 100 * double_round (of_int 3 / of_int 2))), 100))"
    by (rule new_size_closed_form) (simp_all add: dr_3_2 overflows_def pow2_eval)
  also have "\<dots> = Inr (100, trunc (4691249611844267 / 70368744177664))"
    by (simp add: dr_3_2 dr_200_3)
  also have "trunc (4691249611844267 / 70368744177664) = 66"
    by (rule trunc_eval) simp_all
  finally show ?thesis .
qed

lemma new_size_strip: "new_size 1000 1 100 = Inr (100, 0)"
proof -
  have "trunc (3602879701896397 / 36028797018963968) = 0"
    by (rule trunc_eval) simp_all
  then show ?thesis
    by (simp add: new_size_def and_then_def int_truediv_def float_of_int_def float_div_def
        int_of_float_def double_round_numeral dr_tenth overflows_def pow2_eval)
qed

lemma new_size_column: "new_size 1 300 100 = Inr (0, 100)"
proof -
  have "trunc (3002399751580331 / 9007199254740992) = 0"
    by (rule trunc_eval) simp_all
  then show ?thesis
    by (simp add: new_size_def and_then_def int_truediv_def float_of_int_def float_mul_def
        int_of_float_def double_round_numeral dr_300th dr_100_300th overflows_def pow2_eval)
qed

lemma new_size_banner: "new_size 1024 8 64 = Inr (64, 0)"
proof -
  have "trunc (1 / 2) = 0" by (rule trunc_eval) simp_all
  then show ?thesis
    by (simp add: new_size_def and_then_def int_truediv_def float_of_int_def float_div_def
        int_of_float_def double_round_numeral dr_half overflows_def pow2_eval)
qed


lemma paste_offset_within:
  "0 \<le> n \<Longrightarrow> n \<le> T \<Longrightarrow> 0 \<le> paste_offset T n \<and> paste_offset T n + n \<le> T"
  by (simp add: paste_offset_def)


text \<open>
  When the margins differ, floor division gives the smaller one to the left and top: the
  content sits at most one pixel closer to the upper left corner.
\<close>

lemma paste_offset_centred:
  "paste_offset T n \<le> T - n - paste_offset T n \<and> T - n - paste_offset T n \<le> paste_offset T n + 1"
  by (simp add: paste_offset_def) presburger


section \<open>The steps of \<^verbatim>\<open>resize_and_pad\<close>\<close>

lemma Image_resize_size:
  "Image_resize lanczos im (nw, nh) = Inr r \<Longrightarrow> width r = nw \<and> height r = nh"
  by (auto simp: Image_resize_def split: if_splits)

lemma Image_resize_ok:
  "1 \<le> nw \<Longrightarrow> nw \<le> c_int_max \<Longrightarrow> 1 \<le> nh \<Longrightarrow> nh \<le> c_int_max \<Longrightarrow>
   \<exists>r. Image_resize lanczos im (nw, nh) = Inr r"
  by (auto simp: Image_resize_def fits_c_int_def c_int_min_def c_int_max_def)

lemma Image_resize_rejects:
  "fits_c_int nw \<Longrightarrow> fits_c_int nh \<Longrightarrow> nw < 1 \<or> nh < 1 \<Longrightarrow>
   (width im, height im) \<noteq> (nw, nh) \<Longrightarrow> Image_resize lanczos im (nw, nh) = Inl ValueError"
  by (auto simp: Image_resize_def)

lemma Image_resize_overflow:
  "(width im, height im) \<noteq> (nw, nh) \<Longrightarrow> \<not> fits_c_int nw \<or> \<not> fits_c_int nh \<Longrightarrow>
   Image_resize lanczos im (nw, nh) = Inl OverflowError"
  by (auto simp: Image_resize_def)


lemma resize_and_pad_new_size_error:
  "new_size (width (h ! im)) (height (h ! im)) T = Inl e \<Longrightarrow>
   resize_and_pad lanczos im T h = (Inl e, h)"
  by (simp add: resize_and_pad_def)

lemma resize_and_pad_resize_error:
  "new_size (width (h ! im)) (height (h ! im)) T = Inr (nw, nh) \<Longrightarrow>
   Image_resize lanczos (h ! im) (nw, nh) = Inl e \<Longrightarrow>
   resize_and_pad lanczos im T h = (Inl e, h)"
  by (simp add: resize_and_pad_def)

lemma resize_and_pad_success:
  assumes "new_size (width (h ! im)) (height (h ! im)) T = Inr (nw, nh)"
    and "Image_resize lanczos (h ! im) (nw, nh) = Inr resized"
    and "0 \<le> T" "T \<le> c_int_max"
  shows "resize_and_pad lanczos im T h =
    (Inr (Suc (length h)),
     h @ [resized,
          \<lparr>width = T, height = T,
           pixel = (\<lambda>x y.
             if paste_offset T nw \<le> x \<and> x < paste_offset T nw + width resized \<and>
                paste_offset T nh \<le> y \<and> y < paste_offset T nh + height resized
             then pixel resized (x - paste_offset T nw) (y - paste_offset T nh)
             else black)\<rparr>])"
  using assms
  by (simp add: resize_and_pad_def alloc_def Image_new_def fits_c_int_def c_int_min_def
      c_int_max_def Image_paste_def nth_append Let_def list_update_append cong: if_cong)

lemma resize_and_pad_frame:
  "\<exists>new. snd (resize_and_pad lanczos im T h) = h @ new \<and> length new \<le> 2"
  by (auto simp: resize_and_pad_def alloc_def Let_def list_update_append
      split: sum.splits prod.splits)

lemma resize_and_pad_extends: "\<exists>new. snd (resize_and_pad lanczos im T h) = h @ new"
  using resize_and_pad_frame by blast

lemma resize_and_pad_Inr:
  assumes "resize_and_pad lanczos im T h = (Inr r, h')"
  shows "\<exists>resized canvas. r = Suc (length h) \<and> h' = h @ [resized, canvas] \<and>
           width canvas = T \<and> height canvas = T"
  using assms
  by (auto simp: resize_and_pad_def alloc_def Let_def list_update_append Image_new_def
      Image_paste_def nth_append split: sum.splits prod.splits if_splits)


text \<open>
  Where both scaled sides are at least 1, the call returns the letterboxed canvas: the
  scaled image in the box at the paste offsets, black elsewhere.
\<close>

lemma resize_and_pad_letterbox:
  assumes "0 < width (h ! im)" "0 < height (h ! im)" "0 < T" "T \<le> c_int_max"
    and "new_size (width (h ! im)) (height (h ! im)) T = Inr (nw, nh)" "1 \<le> nw" "1 \<le> nh"
  shows "\<exists>resized. width resized = nw \<and> height resized = nh \<and>
     resize_and_pad lanczos im T h =
       (Inr (Suc (length h)),
        h @ [resized,
             \<lparr>width = T, height = T,
              pixel = (\<lambda>x y.
                if paste_offset T nw \<le> x \<and> x < paste_offset T nw + nw \<and>
                   paste_offset T nh \<le> y \<and> y < paste_offset T nh + nh
                then pixel resized (x - paste_offset T nw) (y - paste_offset T nh)
                else black)\<rparr>])"
proof -
  have T53: "T \<le> 2 ^ 53" using assms(4) by (simp add: c_int_max_def)
  have b: "0 \<le> nw \<and> nw \<le> T \<and> 0 \<le> nh \<and> nh \<le> T"
    using assms(1,2,3) T53 assms(5) by (rule new_size_within)
  then have "nw \<le> c_int_max" "nh \<le> c_int_max" using assms(4) by simp_all
  then obtain resized where r: "Image_resize lanczos (h ! im) (nw, nh) = Inr resized"
    using Image_resize_ok[of nw nh lanczos "h ! im"] assms(6,7) by blast
  then have sz: "width resized = nw \<and> height resized = nh" by (rule Image_resize_size)
  have "0 \<le> T" using assms(3) by simp
  from resize_and_pad_success[OF assms(5) r this assms(4)] sz show ?thesis by auto
qed

lemma resize_and_pad_returns:
  assumes "normalisable (h ! im) T"
  shows "\<exists>resized canvas.
    resize_and_pad lanczos im T h = (Inr (Suc (length h)), h @ [resized, canvas])"
proof -
  obtain nw nh where ns: "new_size (width (h ! im)) (height (h ! im)) T = Inr (nw, nh)"
    and pos: "1 \<le> nw" "1 \<le> nh"
    using assms by (auto simp: normalisable_def split: sum.splits)
  from assms have "0 < width (h ! im)" "0 < height (h ! im)" "0 < T" "T \<le> c_int_max"
    by (simp_all add: normalisable_def)
  from resize_and_pad_letterbox[OF this ns pos, of lanczos] show ?thesis by blast
qed


text \<open>
  For a well-formed image with positive sides and a positive target size within the
  library's range, every other call raises ValueError in the resize step.
\<close>

lemma resize_and_pad_degenerate:
  assumes "valid_image (h ! im)" "0 < width (h ! im)" "0 < height (h ! im)"
    and "0 < T" "T \<le> c_int_max" "\<not> normalisable (h ! im) T"
  shows "resize_and_pad lanczos im T h = (Inl ValueError, h)"
proof -
  let ?w = "width (h ! im)" and ?h = "height (h ! im)"
  have w53: "?w \<le> 2 ^ 53" using assms(1) by (simp add: valid_image_def c_int_max_def)
  have T53: "T \<le> 2 ^ 53" "\<bar>T\<bar> \<le> 2 ^ 53" using assms(4,5) by (simp_all add: c_int_max_def)
  obtain nw nh where ns: "new_size ?w ?h T = Inr (nw, nh)"
    using new_size_returns[OF assms(2) w53 assms(3) T53(2)] by blast
  have b: "0 \<le> nw \<and> nw \<le> T \<and> 0 \<le> nh \<and> nh \<le> T"
    using assms(2,3,4) T53(1) ns by (rule new_size_within)
  have small: "nw < 1 \<or> nh < 1"
    using assms(2,3,4,5,6) ns by (auto simp: normalisable_def)
  have "Image_resize lanczos (h ! im) (nw, nh) = Inl ValueError"
    using b small assms(2,3,5)
    by (intro Image_resize_rejects) (auto simp: fits_c_int_def c_int_min_def c_int_max_def)
  then show ?thesis using ns by (simp add: resize_and_pad_resize_error)
qed


text \<open>With a target size of zero or less the resize step raises, before any allocation.\<close>

lemma resize_and_pad_nonpositive_target:
  assumes "0 < width (h ! im)" "width (h ! im) \<le> c_int_max" "0 < height (h ! im)" "T \<le> 0"
  shows "resize_and_pad lanczos im T h =
           (Inl (if T < c_int_min then OverflowError else ValueError), h)"
proof -
  let ?w = "width (h ! im)" and ?h = "height (h ! im)"
  have w53: "?w \<le> 2 ^ 53" using assms(2) by (simp add: c_int_max_def)
  have fin: "\<not> overflows (double_round (of_int ?w / of_int ?h))"
    using assms(1) w53 assms(3) by (rule aspect_finite)
  show ?thesis
  proof (cases "T < c_int_min")
    case True
    then have nofit: "\<not> fits_c_int T" by (simp add: fits_c_int_def)
    from new_size_shape[of ?h ?w T] assms(3) fin
    consider "new_size ?w ?h T = Inl OverflowError"
      | nh where "new_size ?w ?h T = Inr (T, nh)"
      | nw where "new_size ?w ?h T = Inr (nw, T)" by auto
    then show ?thesis
    proof cases
      case 1
      then show ?thesis using True by (simp add: resize_and_pad_new_size_error)
    next
      case 2
      have "Image_resize lanczos (h ! im) (T, nh) = Inl OverflowError"
        using assms(1,4) nofit by (intro Image_resize_overflow) auto
      then show ?thesis using 2 True by (simp add: resize_and_pad_resize_error)
    next
      case 3
      have "Image_resize lanczos (h ! im) (nw, T) = Inl OverflowError"
        using assms(3,4) nofit by (intro Image_resize_overflow) auto
      then show ?thesis using 3 True by (simp add: resize_and_pad_resize_error)
    qed
  next
    case False
    then have lo: "- (2 ^ 53) \<le> T" and T53: "\<bar>T\<bar> \<le> 2 ^ 53"
      using assms(4) by (simp_all add: c_int_min_def)
    obtain nw nh where ns: "new_size ?w ?h T = Inr (nw, nh)"
      using new_size_returns[OF assms(1) w53 assms(3) T53] by blast
    have b: "T \<le> nw \<and> nw \<le> 0 \<and> T \<le> nh \<and> nh \<le> 0"
      using assms(1,3,4) lo ns by (rule new_size_within_neg)
    have "Image_resize lanczos (h ! im) (nw, nh) = Inl ValueError"
      using b False assms(1)
      by (intro Image_resize_rejects) (auto simp: fits_c_int_def c_int_min_def c_int_max_def)
    then show ?thesis using ns False by (simp add: resize_and_pad_resize_error)
  qed
qed


text \<open>An image 1000 wide and 1 high cannot be scaled to fit 100: its new height is 0.\<close>

lemma resize_and_pad_strip:
  assumes "width (h ! im) = 1000" "height (h ! im) = 1"
  shows "resize_and_pad lanczos im 100 h = (Inl ValueError, h)"
proof -
  have "Image_resize lanczos (h ! im) (100, 0) = Inl ValueError"
    using assms by (simp add: Image_resize_def fits_c_int_def c_int_min_def c_int_max_def)
  then show ?thesis using assms new_size_strip by (simp add: resize_and_pad_resize_error)
qed


text \<open>Nor can an image 1024 wide and 8 high be scaled to fit 64.\<close>

lemma resize_and_pad_banner:
  assumes "width (h ! im) = 1024" "height (h ! im) = 8"
  shows "resize_and_pad lanczos im 64 h = (Inl ValueError, h)"
proof -
  have "Image_resize lanczos (h ! im) (64, 0) = Inl ValueError"
    using assms by (simp add: Image_resize_def fits_c_int_def c_int_min_def c_int_max_def)
  then show ?thesis using assms new_size_banner by (simp add: resize_and_pad_resize_error)
qed


text \<open>
  The two worked examples, run through the whole function: the scaled copy and the
  canvas that the call allocates, for every pixel content and every filter.
\<close>

lemma new_size_landscape: "new_size 200 100 100 = Inr (100, 50)"
  by (simp add: new_size_def and_then_def int_truediv_def float_of_int_def float_div_def
      int_of_float_def double_round_numeral overflows_def pow2_eval trunc_def)

lemma new_size_portrait: "new_size 100 200 100 = Inr (50, 100)"
  by (simp add: new_size_def and_then_def int_truediv_def float_of_int_def float_mul_def
      int_of_float_def double_round_numeral dr_half overflows_def pow2_eval trunc_def)

lemma resize_and_pad_landscape:
  assumes "width (h ! im) = 200" "height (h ! im) = 100"
  shows "resize_and_pad lanczos im 100 h =
    (Inr (Suc (length h)),
     h @ [\<lparr>width = 100, height = 50, pixel = lanczos (h ! im) 100 50\<rparr>,
          \<lparr>width = 100, height = 100,
           pixel = (\<lambda>x y. if 0 \<le> x \<and> x < 100 \<and> 25 \<le> y \<and> y < 75
                         then lanczos (h ! im) 100 50 x (y - 25) else black)\<rparr>])"
proof -
  have ns: "new_size (width (h ! im)) (height (h ! im)) 100 = Inr (100, 50)"
    using assms new_size_landscape by simp
  have rs: "Image_resize lanczos (h ! im) (100, 50) =
      Inr \<lparr>width = 100, height = 50, pixel = lanczos (h ! im) 100 50\<rparr>"
    using assms by (simp add: Image_resize_def fits_c_int_def c_int_min_def c_int_max_def)
  have "(0::int) \<le> 100" "(100::int) \<le> c_int_max" by (simp_all add: c_int_max_def)
  from resize_and_pad_success[OF ns rs this]
  show ?thesis by (simp add: paste_offset_def cong: if_cong)
qed

lemma resize_and_pad_portrait:
  assumes "width (h ! im) = 100" "height (h ! im) = 200"
  shows "resize_and_pad lanczos im 100 h =
    (Inr (Suc (length h)),
     h @ [\<lparr>width = 50, height = 100, pixel = lanczos (h ! im) 50 100\<rparr>,
          \<lparr>width = 100, height = 100,
           pixel = (\<lambda>x y. if 25 \<le> x \<and> x < 75 \<and> 0 \<le> y \<and> y < 100
                         then lanczos (h ! im) 50 100 (x - 25) y else black)\<rparr>])"
proof -
  have ns: "new_size (width (h ! im)) (height (h ! im)) 100 = Inr (50, 100)"
    using assms new_size_portrait by simp
  have rs: "Image_resize lanczos (h ! im) (50, 100) =
      Inr \<lparr>width = 50, height = 100, pixel = lanczos (h ! im) 50 100\<rparr>"
    using assms by (simp add: Image_resize_def fits_c_int_def c_int_min_def c_int_max_def)
  have "(0::int) \<le> 100" "(100::int) \<le> c_int_max" by (simp_all add: c_int_max_def)
  from resize_and_pad_success[OF ns rs this]
  show ?thesis by (simp add: paste_offset_def cong: if_cong)
qed


section \<open>The loop and the grid of \<^verbatim>\<open>generate_images\<close>\<close>

lemma resize_each_extends:
  "\<exists>new. snd (resize_each lanczos images T idxs acc h) = h @ new"
proof (induction idxs arbitrary: acc h)
  case Nil
  then show ?case by simp
next
  case (Cons i idxs)
  show ?case
  proof (cases "i < length images")
    case False
    then show ?thesis by simp
  next
    case True
    obtain res h1 where r: "resize_and_pad lanczos (images ! i) T h = (res, h1)"
      by (cases "resize_and_pad lanczos (images ! i) T h")
    obtain new1 where n1: "h1 = h @ new1"
      using resize_and_pad_extends[of lanczos "images ! i" T h] r by auto
    show ?thesis
    proof (cases res)
      case (Inl e)
      then show ?thesis using True r n1 by simp
    next
      case (Inr ref)
      obtain new2 where "snd (resize_each lanczos images T idxs (acc @ [ref]) h1) = h1 @ new2"
        using Cons.IH by blast
      then show ?thesis using True r n1 Inr by simp
    qed
  qed
qed

lemma resize_each_Inr:
  assumes "resize_each lanczos images T idxs acc h = (Inr rs, h')"
  shows "\<exists>new_refs. rs = acc @ new_refs \<and> length new_refs = length idxs \<and>
           (\<forall>r \<in> set new_refs. length h \<le> r \<and> r < length h' \<and>
              width (h' ! r) = T \<and> height (h' ! r) = T)"
  using assms
proof (induction idxs arbitrary: acc h)
  case Nil
  then show ?case by simp
next
  case (Cons i idxs)
  from Cons.prems have True: "i < length images" by (auto split: if_splits)
  obtain res h1 where r: "resize_and_pad lanczos (images ! i) T h = (res, h1)"
    by (cases "resize_and_pad lanczos (images ! i) T h")
  with Cons.prems True obtain ref where res: "res = Inr ref"
    by (cases res) auto
  from resize_and_pad_Inr[of lanczos "images ! i" T h ref h1] r res
  obtain resized canvas where c: "ref = Suc (length h)" "h1 = h @ [resized, canvas]"
    "width canvas = T" "height canvas = T" by auto
  have rest: "resize_each lanczos images T idxs (acc @ [ref]) h1 = (Inr rs, h')"
    using Cons.prems True r res by simp
  from Cons.IH[OF rest] obtain new_refs where
    n: "rs = (acc @ [ref]) @ new_refs" "length new_refs = length idxs"
      "\<forall>r \<in> set new_refs. length h1 \<le> r \<and> r < length h' \<and> width (h' ! r) = T \<and> height (h' ! r) = T"
    by blast
  obtain new where ext: "h' = h1 @ new"
    using resize_each_extends[of lanczos images T idxs "acc @ [ref]" h1] rest by auto
  have "ref < length h'" "h' ! ref = canvas" using c ext by (simp_all add: nth_append)
  then have "length h \<le> ref \<and> ref < length h' \<and> width (h' ! ref) = T \<and> height (h' ! ref) = T"
    using c by simp
  moreover have "\<forall>r \<in> set new_refs. length h \<le> r" using n(3) c(2) by auto
  ultimately have "\<forall>r \<in> set (ref # new_refs). length h \<le> r \<and> r < length h' \<and>
      width (h' ! r) = T \<and> height (h' ! r) = T" using n(3) by auto
  moreover have "rs = acc @ (ref # new_refs)" using n(1) by simp
  moreover have "length (ref # new_refs) = length (i # idxs)" using n(2) by simp
  ultimately show ?case by blast
qed

lemma resize_each_returns:
  assumes "\<forall>i \<in> set idxs. i < length images"
    and "\<forall>r \<in> set images. r < length h \<and> normalisable (h ! r) T"
  shows "\<exists>rs h'. resize_each lanczos images T idxs acc h = (Inr rs, h')"
  using assms
proof (induction idxs arbitrary: acc h)
  case Nil
  then show ?case by simp
next
  case (Cons i idxs)
  have i: "i < length images" using Cons.prems(1) by simp
  then have "normalisable (h ! (images ! i)) T" using Cons.prems(2) by simp
  then obtain resized canvas where
    r: "resize_and_pad lanczos (images ! i) T h = (Inr (Suc (length h)), h @ [resized, canvas])"
    using resize_and_pad_returns by blast
  have "\<forall>r \<in> set images. r < length (h @ [resized, canvas]) \<and>
      normalisable ((h @ [resized, canvas]) ! r) T"
    using Cons.prems(2) by (auto simp: nth_append)
  moreover have "\<forall>i \<in> set idxs. i < length images" using Cons.prems(1) by simp
  ultimately obtain rs h' where
    "resize_each lanczos images T idxs (acc @ [Suc (length h)]) (h @ [resized, canvas]) = (Inr rs, h')"
    using Cons.IH by blast
  then show ?case using i r by simp
qed

lemma paste_cells_frame:
  "grid < length h \<Longrightarrow>
   length (paste_cells grid imgs i cols w hh h) = length h \<and>
   (\<forall>r. r \<noteq> grid \<longrightarrow> paste_cells grid imgs i cols w hh h ! r = h ! r)"
  by (induction imgs arbitrary: i h) auto

lemma make_image_grid_frame:
  assumes "make_image_grid imgs rows cols h = (res, h')"
  shows "length h \<le> length h' \<and> (\<forall>r < length h. h' ! r = h ! r)"
proof (cases "\<exists>grid. res = Inr grid")
  case False
  then have "h' = h"
    using assms
    by (auto simp: make_image_grid_def Let_def alloc_def split: if_splits list.splits sum.splits)
  then show ?thesis by simp
next
  case True
  then obtain grid where "res = Inr grid" by blast
  then obtain g first rest where
    h': "h' = paste_cells (length h) imgs 0 cols (width (h ! first)) (height (h ! first)) (h @ [g])"
    using assms
    by (auto simp: make_image_grid_def Let_def alloc_def split: if_splits list.splits sum.splits)
  have "length h < length (h @ [g])" by simp
  from paste_cells_frame[OF this, of imgs 0 cols "width (h ! first)" "height (h ! first)"]
  show ?thesis unfolding h' by (auto simp: nth_append)
qed

lemma make_image_grid_returns:
  assumes "images \<noteq> []" "int (length images) = cols" "cols * width (h ! hd images) \<le> c_int_max"
    "0 \<le> width (h ! hd images)" "0 \<le> height (h ! hd images)" "height (h ! hd images) \<le> c_int_max"
  shows "\<exists>grid h'. make_image_grid images 1 cols h = (Inr grid, h')"
proof -
  obtain first rest where im: "images = first # rest" using assms(1) by (cases images) auto
  have "0 \<le> cols" using assms(2) by simp
  then have "0 \<le> cols * width (h ! first)" using assms(4) im by simp
  then have "\<not> cols * width (h ! first) < 0" by (simp only: not_less)
  then show ?thesis
    using assms im
    by (simp add: make_image_grid_def Let_def Image_new_def fits_c_int_def c_int_min_def
        c_int_max_def alloc_def)
qed

lemma map_nth_appended:
  assumes "\<forall>r < length (h @ outputs). h' ! r = (h @ outputs) ! r"
  shows "map ((!) h') [length h ..< length h + length outputs] = outputs"
proof (rule nth_equalityI)
  show "length (map ((!) h') [length h ..< length h + length outputs]) = length outputs"
    by simp
next
  fix i
  assume "i < length (map ((!) h') [length h ..< length h + length outputs])"
  then have i: "i < length outputs" by simp
  then have "map ((!) h') [length h ..< length h + length outputs] ! i = h' ! (length h + i)"
    by simp
  also have "\<dots> = (h @ outputs) ! (length h + i)" using assms i by simp
  also have "\<dots> = outputs ! i" by simp
  finally show "map ((!) h') [length h ..< length h + length outputs] ! i = outputs ! i" .
qed


text \<open>
  A call of \<^verbatim>\<open>generate_images\<close> that returns has called the pipeline once, with the fixed
  negative prompt, and returns references to the pipeline's own outputs, unchanged and
  in order; the \<open>n\<close> normalised copies are square with the requested side.
\<close>

lemma generate_images_returns_raw_outputs:
  assumes "generate_images lanczos pipe prompt im steps n strength guidance size' show w
             = (Inr images, w')"
  shows "\<exists>outputs.
     pipe \<lparr>p_prompt = prompt, p_image = heap w ! im, p_num_inference_steps = steps,
           p_num_images_per_prompt = n, p_strength = strength,
           p_guidance_scale = guidance, p_negative_prompt = negative_prompt\<rparr> = Inr outputs \<and>
     pipeline_calls w' = pipeline_calls w @
       [\<lparr>p_prompt = prompt, p_image = heap w ! im, p_num_inference_steps = steps,
         p_num_images_per_prompt = n, p_strength = strength,
         p_guidance_scale = guidance, p_negative_prompt = negative_prompt\<rparr>] \<and>
     images = [length (heap w) ..< length (heap w) + length outputs] \<and>
     map ((!) (heap w')) images = outputs \<and>
     (\<forall>r < length (heap w). heap w' ! r = heap w ! r) \<and>
     (\<exists>images_resized. length images_resized = nat n \<and>
        (\<forall>r \<in> set images_resized. r < length (heap w') \<and>
           width (heap w' ! r) = size' \<and> height (heap w' ! r) = size'))"
proof -
  let ?call = "\<lparr>p_prompt = prompt, p_image = heap w ! im, p_num_inference_steps = steps,
           p_num_images_per_prompt = n, p_strength = strength,
           p_guidance_scale = guidance, p_negative_prompt = negative_prompt\<rparr>"
  let ?h = "heap w"
  obtain outputs where out: "pipe ?call = Inr outputs"
    using assms by (cases "pipe ?call") (auto simp: generate_images_def Let_def)
  let ?h2 = "?h @ outputs"
  let ?imgs = "[length ?h ..< length ?h + length outputs]"
  obtain res h3 where re: "resize_each lanczos ?imgs size' [0 ..< nat n] [] ?h2 = (res, h3)"
    by (cases "resize_each lanczos ?imgs size' [0 ..< nat n] [] ?h2")
  obtain rs where rs: "res = Inr rs"
    using assms out re by (cases res) (auto simp: generate_images_def Let_def)
  from resize_each_Inr[of lanczos ?imgs size' "[0 ..< nat n]" "[]" ?h2 rs h3] re rs
  have len: "length rs = nat n"
    and dims: "\<forall>r \<in> set rs. r < length h3 \<and> width (h3 ! r) = size' \<and> height (h3 ! r) = size'"
    by auto
  obtain new where h3: "h3 = ?h2 @ new"
    using resize_each_extends[of lanczos ?imgs size' "[0 ..< nat n]" "[]" ?h2] re by auto
  have final: "images = ?imgs \<and> pipeline_calls w' = pipeline_calls w @ [?call] \<and>
      length h3 \<le> length (heap w') \<and> (\<forall>r < length h3. heap w' ! r = h3 ! r)"
  proof (cases "show")
    case False
    then show ?thesis using assms out re rs by (auto simp: generate_images_def Let_def)
  next
    case True
    obtain gres h4 where g: "make_image_grid rs 1 n h3 = (gres, h4)"
      by (cases "make_image_grid rs 1 n h3")
    obtain grid where "gres = Inr grid"
      using assms out re rs True g by (cases gres) (auto simp: generate_images_def Let_def)
    then have "images = ?imgs \<and> pipeline_calls w' = pipeline_calls w @ [?call] \<and> heap w' = h4"
      using assms out re rs True g by (auto simp: generate_images_def Let_def)
    then show ?thesis using make_image_grid_frame[OF g] by simp
  qed
  have keep: "\<forall>r < length ?h2. heap w' ! r = ?h2 ! r"
    using final h3 by (simp add: nth_append)
  then have raw: "map ((!) (heap w')) ?imgs = outputs" by (rule map_nth_appended)
  have old: "\<forall>r < length ?h. heap w' ! r = ?h ! r" using keep by (simp add: nth_append)
  have "\<forall>r \<in> set rs. r < length (heap w') \<and>
           width (heap w' ! r) = size' \<and> height (heap w' ! r) = size'"
    using dims final by fastforce
  then show ?thesis using out final raw old len by blast
qed


text \<open>
  The call returns whenever the pipeline returns the \<open>n\<close> images asked for, each of them
  can be scaled to the requested size, and the display grid fits the image library.
\<close>

lemma generate_images_returns:
  assumes "pipe \<lparr>p_prompt = prompt, p_image = heap w ! im, p_num_inference_steps = steps,
                  p_num_images_per_prompt = n, p_strength = strength,
                  p_guidance_scale = guidance, p_negative_prompt = negative_prompt\<rparr> = Inr outputs"
    and "int (length outputs) = n" "1 \<le> n" "n * size' \<le> c_int_max"
    and "\<forall>im \<in> set outputs. normalisable im size'"
  shows "\<exists>images w'.
    generate_images lanczos pipe prompt im steps n strength guidance size' show w = (Inr images, w')"
proof -
  let ?h = "heap w"
  let ?h2 = "?h @ outputs"
  let ?imgs = "[length ?h ..< length ?h + length outputs]"
  have len: "nat n = length outputs" using assms(2) by simp
  have idx: "\<forall>i \<in> set [0 ..< nat n]. i < length ?imgs" using len by simp
  have norm: "\<forall>r \<in> set ?imgs. r < length ?h2 \<and> normalisable (?h2 ! r) size'"
    using assms(5) by (auto simp: nth_append)
  obtain rs h3 where re: "resize_each lanczos ?imgs size' [0 ..< nat n] [] ?h2 = (Inr rs, h3)"
    using resize_each_returns[OF idx norm] by blast
  show ?thesis
  proof (cases "show")
    case False
    then show ?thesis using assms(1) re by (simp add: generate_images_def Let_def)
  next
    case True
    from resize_each_Inr[OF re]
    have rl: "length rs = nat n"
      and dims: "\<forall>r \<in> set rs. width (h3 ! r) = size' \<and> height (h3 ! r) = size'"
      by auto
    have ne: "rs \<noteq> []" using rl assms(3) by auto
    then have hd: "width (h3 ! hd rs) = size'" "height (h3 ! hd rs) = size'"
      using dims by simp_all
    obtain out where "out \<in> set outputs" using assms(2,3) by (cases outputs) auto
    then have sz: "0 < size'" "size' \<le> c_int_max"
      using assms(5) by (simp_all add: normalisable_def)
    have "\<exists>grid h4. make_image_grid rs 1 n h3 = (Inr grid, h4)"
      using ne rl assms(3,4) hd sz by (intro make_image_grid_returns) simp_all
    then show ?thesis using assms(1) re True by (auto simp: generate_images_def Let_def)
  qed
qed


section \<open>The claims\<close>

subsection \<open>C1: the output is always square with the target side\<close>

text \<open>
  C1 (the code does not meet the claim).  The claim: for every image with positive width
  and height and every positive target size, \<^verbatim>\<open>resize_and_pad\<close> returns an image whose
  width and height equal the target size.  For a 1000 x 1 image and the target size 100
  the new height is \<open>int(100 / 1000.0) = 0\<close>, the resize step refuses a side of 0, and the
  call raises ValueError instead of returning a 100 x 100 image.  Lemmas
  \<open>resize_and_pad_letterbox\<close> and \<open>resize_and_pad_degenerate\<close> delimit the defect: the
  call returns a square canvas of the target size exactly when no scaled side is 0.
\<close>

theorem thin_landscape_image_raises:
  "resize_and_pad (\<lambda>im w h x y. black) 0 100
     [\<lparr>width = 1000, height = 1, pixel = (\<lambda>x y. (255, 255, 255))\<rparr>]
   = (Inl ValueError, [\<lparr>width = 1000, height = 1, pixel = (\<lambda>x y. (255, 255, 255))\<rparr>])"
  by (rule resize_and_pad_strip) simp_all


subsection \<open>C2: how the scaled sides are computed\<close>

text \<open>
  C2 (amended).  For an image with positive sides and a target size of magnitude up to
  \<open>2 ^ 53\<close>, the aspect ratio (a double) exceeds 1 exactly when the image is wider than
  tall; then \<open>new_width\<close> is the target size and \<open>new_height\<close> is the double quotient
  \<open>target_size / aspect_ratio\<close> truncated toward zero; otherwise \<open>new_height\<close> is the
  target size and \<open>new_width\<close> is the double product \<open>target_size * aspect_ratio\<close>
  truncated toward zero.  A square image takes the second branch and both new sides equal
  the target size.
\<close>

theorem new_size_truncates:
  assumes "0 < w" "w \<le> c_int_max" "0 < h" "h \<le> c_int_max" "\<bar>T\<bar> \<le> 2 ^ 53"
  shows "(1 < double_round (of_int w / of_int h) \<longleftrightarrow> h < w) \<and>
         new_size w h T =
           (if 1 < double_round (of_int w / of_int h)
            then Inr (T, trunc (double_round (of_int T / double_round (of_int w / of_int h))))
            else Inr (trunc (double_round (of_int T * double_round (of_int w / of_int h))), T)) \<and>
         (w = h \<longrightarrow> new_size w h T = Inr (T, T))"
proof -
  let ?a = "double_round (of_int w / of_int h)"
  have w53: "w \<le> 2 ^ 53" and h52: "h \<le> 2 ^ 52"
    using assms(2,4) by (simp_all add: c_int_max_def)
  have branch: "1 < ?a \<longleftrightarrow> h < w"
    using assms(1,3) h52 by (rule aspect_gt_one_iff)
  have closed: "new_size w h T =
      (if 1 < ?a then Inr (T, trunc (double_round (of_int T / ?a)))
       else Inr (trunc (double_round (of_int T * ?a)), T))"
    using assms(3) aspect_nonneg[OF assms(1,3)] aspect_finite[OF assms(1) w53 assms(3)] assms(5)
    by (rule new_size_closed_form)
  have square: "new_size w h T = Inr (T, T)" if "w = h"
  proof -
    have "?a = 1" using that assms(3) by (simp add: double_round_1)
    then show ?thesis
      using closed assms(5) by (simp add: double_round_int trunc_of_int)
  qed
  show ?thesis using branch closed square by blast
qed

theorem new_size_truncates_witness:
  "(0::int) < 7 \<and> (7::int) \<le> c_int_max \<and> \<bar>9::int\<bar> \<le> 2 ^ 53 \<and> new_size 7 7 9 = Inr (9, 9)"
proof -
  have h: "(0::int) < 7" "(7::int) \<le> c_int_max" "\<bar>9::int\<bar> \<le> 2 ^ 53"
    by (simp_all add: c_int_max_def)
  from new_size_truncates[OF h(1) h(2) h(1) h(2) h(3)]
  have "(7::int) = 7 \<longrightarrow> new_size 7 7 9 = Inr (9, 9)" by (elim conjE)
  then show ?thesis using h by simp
qed


text \<open>
  C2 (as stated, refuted).  The specification rounds the scaled side to the nearest
  integer; the notebook truncates.  A 3 x 2 image with target size 100 gets the height
  66, where the specification's formula gives 67.
\<close>

theorem rounding_counterexample:
  "new_size 3 2 100 = Inr (100, 66) \<and> spec_new_size 3 2 100 = (100, 67)"
proof -
  have "round_half_even (200 / 3) = 67" by (rule round_half_even_near) simp_all 
  then show ?thesis by (simp add: new_size_3_2 spec_new_size_def)
qed


subsection \<open>C3: arguments that are not positive\<close>

text \<open>
  C3 (amended).  The notebook validates nothing itself and has no error of its own.  An
  image of height 0 makes the division of the sides raise ZeroDivisionError; for a
  well-formed image with positive sides a target size of zero or less makes the resize
  step raise ValueError (OverflowError below the range of a C \<^verbatim>\<open>int\<close>).  In both cases
  the heap is unchanged: the error comes before any image is allocated.
\<close>

theorem nonpositive_arguments_fail_without_allocation:
  "(height (h ! im) = 0 \<longrightarrow> resize_and_pad lanczos im T h = (Inl ZeroDivisionError, h)) \<and>
   (valid_image (h ! im) \<and> 0 < width (h ! im) \<and> 0 < height (h ! im) \<and> T \<le> 0 \<longrightarrow>
      resize_and_pad lanczos im T h =
        (Inl (if T < c_int_min then OverflowError else ValueError), h))"
  using resize_and_pad_nonpositive_target[of h im T lanczos]
  by (simp add: resize_and_pad_new_size_error new_size_zero_height valid_image_def)

theorem nonpositive_arguments_fail_without_allocation_witness:
  "resize_and_pad (\<lambda>im w h x y. black) 0 0 [\<lparr>width = 2, height = 1, pixel = (\<lambda>x y. black)\<rparr>]
     = (Inl ValueError, [\<lparr>width = 2, height = 1, pixel = (\<lambda>x y. black)\<rparr>]) \<and>
   resize_and_pad (\<lambda>im w h x y. black) 0 5 [\<lparr>width = 5, height = 0, pixel = (\<lambda>x y. black)\<rparr>]
     = (Inl ZeroDivisionError, [\<lparr>width = 5, height = 0, pixel = (\<lambda>x y. black)\<rparr>])"
  using nonpositive_arguments_fail_without_allocation[of
      "[\<lparr>width = 2, height = 1, pixel = (\<lambda>x y. black)\<rparr>]" 0 "\<lambda>im w h x y. black" 0]
    nonpositive_arguments_fail_without_allocation[of
      "[\<lparr>width = 5, height = 0, pixel = (\<lambda>x y. black)\<rparr>]" 0 "\<lambda>im w h x y. black" 5]
  by (simp add: valid_image_def c_int_max_def c_int_min_def)


text \<open>
  C3 (as stated, refuted).  A width of 0 is not always an error: for an image 0 wide and
  5 high and the target size 5 the scaled size is the size the image already has, the
  resize step returns a copy, and the call returns a black 5 x 5 canvas.
\<close>

theorem zero_width_accepted_counterexample:
  "resize_and_pad (\<lambda>im w h x y. black) 0 5 [\<lparr>width = 0, height = 5, pixel = (\<lambda>x y. black)\<rparr>]
     = (Inr 2, [\<lparr>width = 0, height = 5, pixel = (\<lambda>x y. black)\<rparr>,
                \<lparr>width = 0, height = 5, pixel = (\<lambda>x y. black)\<rparr>,
                \<lparr>width = 5, height = 5, pixel = (\<lambda>x y. black)\<rparr>])"
proof -
  have "new_size 0 5 5 = Inr (0, 5)"
    by (simp add: new_size_def and_then_def int_truediv_def float_of_int_def float_mul_def
        int_of_float_def double_round_0 double_round_numeral overflows_def pow2_eval trunc_def)
  then show ?thesis
    by (simp add: resize_and_pad_def Image_resize_def alloc_def Image_new_def fits_c_int_def
        c_int_min_def c_int_max_def Image_paste_def Let_def paste_offset_def cong: if_cong)
qed


subsection \<open>C4: the two worked examples\<close>

text \<open>
  C4.  For a 200 x 100 image and the target size 100 the new size is 100 x 50 and the
  paste offsets are 0 and 25: the call scales the image to 100 x 50 and returns a
  100 x 100 image that shows the scaled image in rows 25 to 74 and is black elsewhere,
  so that rows 0 to 24 and 75 to 99 are black.  For a 100 x 200 image the new size is
  50 x 100 and the paste offsets are 25 and 0: the call scales the image to 50 x 100 and
  returns a 100 x 100 image that shows the scaled image in columns 25 to 74 and is black
  elsewhere.
\<close>

theorem landscape_and_portrait_examples:
  "new_size 200 100 100 = Inr (100, 50) \<and>
   paste_offset 100 100 = 0 \<and> paste_offset 100 50 = 25 \<and>
   new_size 100 200 100 = Inr (50, 100) \<and>
   (width (h ! im) = 200 \<and> height (h ! im) = 100 \<longrightarrow>
      (\<exists>out h'. resize_and_pad lanczos im 100 h = (Inr out, h') \<and>
         h' ! length h = \<lparr>width = 100, height = 50, pixel = lanczos (h ! im) 100 50\<rparr> \<and>
         width (h' ! out) = 100 \<and> height (h' ! out) = 100 \<and>
         (\<forall>x y. pixel (h' ! out) x y =
            (if 0 \<le> x \<and> x < 100 \<and> 25 \<le> y \<and> y < 75
             then lanczos (h ! im) 100 50 x (y - 25) else black)) \<and>
         (\<forall>x y. 0 \<le> x \<and> x < 100 \<and> (0 \<le> y \<and> y \<le> 24 \<or> 75 \<le> y \<and> y \<le> 99) \<longrightarrow>
            pixel (h' ! out) x y = black))) \<and>
   (width (h ! im) = 100 \<and> height (h ! im) = 200 \<longrightarrow>
      (\<exists>out h'. resize_and_pad lanczos im 100 h = (Inr out, h') \<and>
         h' ! length h = \<lparr>width = 50, height = 100, pixel = lanczos (h ! im) 50 100\<rparr> \<and>
         width (h' ! out) = 100 \<and> height (h' ! out) = 100 \<and>
         (\<forall>x y. pixel (h' ! out) x y =
            (if 25 \<le> x \<and> x < 75 \<and> 0 \<le> y \<and> y < 100
             then lanczos (h ! im) 50 100 (x - 25) y else black))))"
proof (intro conjI impI)
  show "new_size 200 100 100 = Inr (100, 50)" by (rule new_size_landscape)
  show "new_size 100 200 100 = Inr (50, 100)" by (rule new_size_portrait)
  show "paste_offset 100 100 = 0" "paste_offset 100 50 = 25"
    by (simp_all add: paste_offset_def)
next
  assume "width (h ! im) = 200 \<and> height (h ! im) = 100"
  then have "resize_and_pad lanczos im 100 h =
    (Inr (Suc (length h)),
     h @ [\<lparr>width = 100, height = 50, pixel = lanczos (h ! im) 100 50\<rparr>,
          \<lparr>width = 100, height = 100,
           pixel = (\<lambda>x y. if 0 \<le> x \<and> x < 100 \<and> 25 \<le> y \<and> y < 75
                         then lanczos (h ! im) 100 50 x (y - 25) else black)\<rparr>])"
    by (intro resize_and_pad_landscape) simp_all
  then show "\<exists>out h'. resize_and_pad lanczos im 100 h = (Inr out, h') \<and>
         h' ! length h = \<lparr>width = 100, height = 50, pixel = lanczos (h ! im) 100 50\<rparr> \<and>
         width (h' ! out) = 100 \<and> height (h' ! out) = 100 \<and>
         (\<forall>x y. pixel (h' ! out) x y =
            (if 0 \<le> x \<and> x < 100 \<and> 25 \<le> y \<and> y < 75
             then lanczos (h ! im) 100 50 x (y - 25) else black)) \<and>
         (\<forall>x y. 0 \<le> x \<and> x < 100 \<and> (0 \<le> y \<and> y \<le> 24 \<or> 75 \<le> y \<and> y \<le> 99) \<longrightarrow>
            pixel (h' ! out) x y = black)"
    by (auto simp: nth_append)
next
  assume "width (h ! im) = 100 \<and> height (h ! im) = 200"
  then have "resize_and_pad lanczos im 100 h =
    (Inr (Suc (length h)),
     h @ [\<lparr>width = 50, height = 100, pixel = lanczos (h ! im) 50 100\<rparr>,
          \<lparr>width = 100, height = 100,
           pixel = (\<lambda>x y. if 25 \<le> x \<and> x < 75 \<and> 0 \<le> y \<and> y < 100
                         then lanczos (h ! im) 50 100 (x - 25) y else black)\<rparr>])"
    by (intro resize_and_pad_portrait) simp_all
  then show "\<exists>out h'. resize_and_pad lanczos im 100 h = (Inr out, h') \<and>
         h' ! length h = \<lparr>width = 50, height = 100, pixel = lanczos (h ! im) 50 100\<rparr> \<and>
         width (h' ! out) = 100 \<and> height (h' ! out) = 100 \<and>
         (\<forall>x y. pixel (h' ! out) x y =
            (if 25 \<le> x \<and> x < 75 \<and> 0 \<le> y \<and> y < 100
             then lanczos (h ! im) 50 100 (x - 25) y else black))"
    by (auto simp: nth_append)
qed

theorem landscape_and_portrait_examples_witness:
  "(\<exists>out h'. resize_and_pad (\<lambda>im w h x y. (nat x, nat y, 7)) 0 100
       [\<lparr>width = 200, height = 100, pixel = (\<lambda>x y. (255, 255, 255))\<rparr>] = (Inr out, h') \<and>
     pixel (h' ! out) 0 24 = black \<and> pixel (h' ! out) 99 75 = black \<and>
     pixel (h' ! out) 3 25 = (3, 0, 7) \<and> pixel (h' ! out) 99 74 = (99, 49, 7)) \<and>
   (\<exists>out h'. resize_and_pad (\<lambda>im w h x y. (nat x, nat y, 7)) 0 100
       [\<lparr>width = 100, height = 200, pixel = (\<lambda>x y. (255, 255, 255))\<rparr>] = (Inr out, h') \<and>
     pixel (h' ! out) 24 50 = black \<and> pixel (h' ! out) 75 50 = black \<and>
     pixel (h' ! out) 25 0 = (0, 0, 7) \<and> pixel (h' ! out) 74 99 = (49, 99, 7))"
proof -
  let ?f = "\<lambda>(im::image) (w::int) (h::int) (x::int) (y::int). (nat x, nat y, 7::nat)"
  let ?l = "[\<lparr>width = 200, height = 100, pixel = (\<lambda>x y. (255, 255, 255))\<rparr>]"
  let ?p = "[\<lparr>width = 100, height = 200, pixel = (\<lambda>x y. (255, 255, 255))\<rparr>]"
  have hl: "width (?l ! 0) = 200 \<and> height (?l ! 0) = 100" by simp
  have hp: "width (?p ! 0) = 100 \<and> height (?p ! 0) = 200" by simp
  from landscape_and_portrait_examples[of ?l 0 ?f] hl
  obtain out h' where
    r: "resize_and_pad ?f 0 100 ?l = (Inr out, h')" and
    c: "\<forall>x y. pixel (h' ! out) x y =
          (if 0 \<le> x \<and> x < 100 \<and> 25 \<le> y \<and> y < 75 then ?f (?l ! 0) 100 50 x (y - 25) else black)" and
    f: "\<forall>x y. 0 \<le> x \<and> x < 100 \<and> (0 \<le> y \<and> y \<le> 24 \<or> 75 \<le> y \<and> y \<le> 99) \<longrightarrow>
            pixel (h' ! out) x y = black"
    by blast
  have 1: "pixel (h' ! out) 0 24 = black" "pixel (h' ! out) 99 75 = black" using f by simp_all
  have 2: "pixel (h' ! out) 3 25 = (3, 0, 7)" "pixel (h' ! out) 99 74 = (99, 49, 7)"
    using c by simp_all
  from landscape_and_portrait_examples[of ?p 0 ?f] hp
  obtain out2 h2 where
    r2: "resize_and_pad ?f 0 100 ?p = (Inr out2, h2)" and
    c2: "\<forall>x y. pixel (h2 ! out2) x y =
          (if 25 \<le> x \<and> x < 75 \<and> 0 \<le> y \<and> y < 100 then ?f (?p ! 0) 50 100 (x - 25) y else black)"
    by blast
  have 3: "pixel (h2 ! out2) 24 50 = black" "pixel (h2 ! out2) 75 50 = black"
    "pixel (h2 ! out2) 25 0 = (0, 0, 7)" "pixel (h2 ! out2) 74 99 = (49, 99, 7)"
    using c2 by simp_all
  show ?thesis using r 1 2 r2 3 by blast
qed


subsection \<open>C5: where the content is placed\<close>

text \<open>
  C5 (the code does not meet the claim).  The claim: for every valid input the scaled
  content is placed at the floor-divided offsets and the rest of the canvas is black.
  Lemma \<open>resize_and_pad_letterbox\<close> shows this for every call whose scaled sides are at
  least 1.  For a 1 x 300 image and the target size 100, a valid input, the new width
  is \<open>int(100 * (1 / 300)) = 0\<close> and the call raises ValueError: nothing is placed and there
  is no canvas.
\<close>

theorem thin_portrait_image_raises:
  "resize_and_pad (\<lambda>im w h x y. black) 0 100
     [\<lparr>width = 1, height = 300, pixel = (\<lambda>x y. (255, 255, 255))\<rparr>]
   = (Inl ValueError, [\<lparr>width = 1, height = 300, pixel = (\<lambda>x y. (255, 255, 255))\<rparr>])"
proof -
  have "Image_resize (\<lambda>im w h x y. black)
      \<lparr>width = 1, height = 300, pixel = (\<lambda>x y. (255, 255, 255))\<rparr> (0, 100) = Inl ValueError"
    by (simp add: Image_resize_def fits_c_int_def c_int_min_def c_int_max_def)
  then show ?thesis using new_size_column by (simp add: resize_and_pad_resize_error)
qed


subsection \<open>C6: the input image is left alone\<close>

text \<open>
  C6.  Whatever the outcome of the call, every image object that existed before it, the
  input image among them, is unchanged afterwards: the heap after the call is the heap
  before it followed by at most two new objects (the scaled copy and the canvas), and
  an image that the call returns is one of the new objects.
\<close>

theorem input_image_unchanged:
  "im < length h \<longrightarrow>
     snd (resize_and_pad lanczos im T h) ! im = h ! im \<and>
     (\<exists>new. snd (resize_and_pad lanczos im T h) = h @ new \<and> length new \<le> 2) \<and>
     (\<forall>out. fst (resize_and_pad lanczos im T h) = Inr out \<longrightarrow> out \<noteq> im \<and> length h \<le> out)"
proof
  assume im: "im < length h"
  obtain new where n: "snd (resize_and_pad lanczos im T h) = h @ new" "length new \<le> 2"
    using resize_and_pad_frame by blast
  then have same: "snd (resize_and_pad lanczos im T h) ! im = h ! im"
    using im by (simp add: nth_append)
  have fresh: "out \<noteq> im \<and> length h \<le> out"
    if ok: "fst (resize_and_pad lanczos im T h) = Inr out" for out
  proof -
    obtain h' where "resize_and_pad lanczos im T h = (Inr out, h')"
      using ok by (cases "resize_and_pad lanczos im T h") simp
    then have "out = Suc (length h)" using resize_and_pad_Inr by blast
    then show ?thesis using im by simp
  qed
  show "snd (resize_and_pad lanczos im T h) ! im = h ! im \<and>
     (\<exists>new. snd (resize_and_pad lanczos im T h) = h @ new \<and> length new \<le> 2) \<and>
     (\<forall>out. fst (resize_and_pad lanczos im T h) = Inr out \<longrightarrow> out \<noteq> im \<and> length h \<le> out)"
    using same n fresh by blast
qed

theorem input_image_unchanged_witness:
  "snd (resize_and_pad (\<lambda>im w h x y. black) 0 100
     [\<lparr>width = 200, height = 100, pixel = (\<lambda>x y. (255, 255, 255))\<rparr>]) ! 0
   = \<lparr>width = 200, height = 100, pixel = (\<lambda>x y. (255, 255, 255))\<rparr>"
  using input_image_unchanged[of 0
      "[\<lparr>width = 200, height = 100, pixel = (\<lambda>x y. (255, 255, 255))\<rparr>]"
      "\<lambda>im w h x y. black" 100]
  by simp


subsection \<open>C7: idempotence on square images of the target size\<close>

text \<open>
  C7.  For a (well-formed) image whose width and height both equal the positive target
  size, the call returns an image of the same size whose pixels are those of the input.
\<close>

theorem already_square_image_is_reproduced:
  assumes "valid_image (h ! im)" "width (h ! im) = T" "height (h ! im) = T" "0 < T"
  shows "\<exists>out h'. resize_and_pad lanczos im T h = (Inr out, h') \<and>
     width (h' ! out) = T \<and> height (h' ! out) = T \<and>
     (\<forall>x y. 0 \<le> x \<and> x < T \<and> 0 \<le> y \<and> y < T \<longrightarrow> pixel (h' ! out) x y = pixel (h ! im) x y)"
proof -
  have max: "T \<le> c_int_max" using assms(1,2) by (simp add: valid_image_def)
  have T53: "\<bar>T\<bar> \<le> 2 ^ 53" using assms(4) max by (simp add: c_int_max_def)
  have "double_round (of_int T / of_int T) = 1" using assms(4) by (simp add: double_round_1)
  then have ns: "new_size (width (h ! im)) (height (h ! im)) T = Inr (T, T)"
    using assms(2,3,4) T53
    by (subst new_size_closed_form) (simp_all add: overflows_def pow2_eval double_round_int trunc_of_int)
  have rs: "Image_resize lanczos (h ! im) (T, T) = Inr (h ! im)"
    using assms(2,3) by (simp add: Image_resize_def)
  have "0 \<le> T" using assms(4) by simp
  from resize_and_pad_success[OF ns rs this max] assms(2,3)
  show ?thesis by (auto simp: paste_offset_def nth_append)
qed

theorem already_square_image_is_reproduced_witness:
  "\<exists>out h'. resize_and_pad (\<lambda>im w h x y. black) 0 64
       [\<lparr>width = 64, height = 64, pixel = (\<lambda>x y. (nat x, nat y, 7))\<rparr>] = (Inr out, h') \<and>
     width (h' ! out) = 64 \<and> pixel (h' ! out) 3 5 = (3, 5, 7)"
proof -
  let ?h = "[\<lparr>width = 64, height = 64, pixel = (\<lambda>x y. (nat x, nat y, 7))\<rparr>]"
  have "valid_image (?h ! 0)" "width (?h ! 0) = 64" "height (?h ! 0) = 64" "(0::int) < 64"
    by (simp_all add: valid_image_def c_int_max_def)
  from already_square_image_is_reproduced[OF this, of "\<lambda>im w h x y. black"]
  obtain out h' where
    r: "resize_and_pad (\<lambda>im w h x y. black) 0 64 ?h = (Inr out, h')" "width (h' ! out) = 64" and
    f: "\<forall>x y. 0 \<le> x \<and> x < 64 \<and> 0 \<le> y \<and> y < 64 \<longrightarrow> pixel (h' ! out) x y = pixel (?h ! 0) x y"
    by blast
  have "pixel (h' ! out) 3 5 = pixel (?h ! 0) 3 5" using f by simp
  then have "pixel (h' ! out) 3 5 = (3, 5, 7)" by simp
  then show ?thesis using r by blast
qed


subsection \<open>C8: the sweep driver\<close>

text \<open>
  C8 (the code does not meet the claim).  The claim: with \<open>n\<close> images requested and a
  pipeline that returns \<open>n\<close> images, \<^verbatim>\<open>generate_images\<close> calls the pipeline once with
  the fixed negative prompt, normalises each output, and returns the \<open>n\<close> raw outputs in
  order.  Lemma \<open>generate_images_returns_raw_outputs\<close> shows this for every call that
  returns.  With one image requested, the size 64, and a pipeline that returns one
  1024 x 8 image, the normalisation raises ValueError (the new height is
  \<open>int(64 / 128.0) = 0\<close>), and so does the call: no images are returned.
\<close>

theorem sweep_with_thin_output_raises:
  "fst (generate_images (\<lambda>im w h x y. black)
      (\<lambda>call. Inr [\<lparr>width = 1024, height = 8, pixel = (\<lambda>x y. (255, 255, 255))\<rparr>])
      ''anime'' 0 30 1 (3 / 5) 10 64 True
      \<lparr>heap = [\<lparr>width = 1024, height = 8, pixel = (\<lambda>x y. black)\<rparr>], pipeline_calls = [],
       displayed = []\<rparr>) = Inl ValueError"
proof -
  let ?h = "[\<lparr>width = 1024, height = 8, pixel = (\<lambda>x y. black)\<rparr>,
             \<lparr>width = 1024, height = 8, pixel = (\<lambda>x y. (255, 255, 255))\<rparr>]"
  have "resize_and_pad (\<lambda>im w h x y. black) 1 64 ?h = (Inl ValueError, ?h)"
    by (rule resize_and_pad_banner) simp_all
  then show ?thesis by (simp add: generate_images_def Let_def)
qed


subsection \<open>C9: an error of the pipeline\<close>

text \<open>
  C9.  If the pipeline raises, \<^verbatim>\<open>generate_images\<close> raises the same exception; the call
  to the pipeline is the only effect: no image is allocated, nothing is displayed, and
  no list is returned.
\<close>

theorem pipeline_error_propagates:
  assumes "pipe \<lparr>p_prompt = prompt, p_image = heap w ! im, p_num_inference_steps = steps,
                  p_num_images_per_prompt = n, p_strength = strength,
                  p_guidance_scale = guidance, p_negative_prompt = negative_prompt\<rparr> = Inl e"
  shows "generate_images lanczos pipe prompt im steps n strength guidance size' show w =
    (Inl e,
     w\<lparr>pipeline_calls := pipeline_calls w @
        [\<lparr>p_prompt = prompt, p_image = heap w ! im, p_num_inference_steps = steps,
          p_num_images_per_prompt = n, p_strength = strength,
          p_guidance_scale = guidance, p_negative_prompt = negative_prompt\<rparr>]\<rparr>)"
  using assms by (simp add: generate_images_def Let_def)

theorem pipeline_error_propagates_witness:
  "fst (generate_images (\<lambda>im w h x y. black) (\<lambda>call. Inl (PipelineError ''CUDA out of memory''))
      ''anime'' 0 30 2 (3 / 5) 10 1024 True
      \<lparr>heap = [\<lparr>width = 8, height = 8, pixel = (\<lambda>x y. black)\<rparr>], pipeline_calls = [],
       displayed = []\<rparr>) = Inl (PipelineError ''CUDA out of memory'')"
  by (subst pipeline_error_propagates[where e = "PipelineError ''CUDA out of memory''"]) simp_all


subsection \<open>C10: the scaled image fits the canvas\<close>

text \<open>
  C10 (amended).  For an image with positive sides and a target size from 1 to \<open>2 ^ 53\<close>
  (which covers every size the image library accepts), the scaled sides never exceed the
  target size, the paste offsets are not negative, and the pasted box lies within the
  canvas; the scaled size is computed whenever the image width is at most \<open>2 ^ 53\<close>.
\<close>

theorem scaled_size_fits_canvas:
  assumes "0 < w" "0 < h" "0 < T" "T \<le> 2 ^ 53"
  shows "(\<forall>nw nh. new_size w h T = Inr (nw, nh) \<longrightarrow>
            nw \<le> T \<and> nh \<le> T \<and>
            0 \<le> paste_offset T nw \<and> 0 \<le> paste_offset T nh \<and>
            0 \<le> nw \<and> paste_offset T nw + nw \<le> T \<and>
            0 \<le> nh \<and> paste_offset T nh + nh \<le> T) \<and>
         (w \<le> 2 ^ 53 \<longrightarrow> (\<exists>nw nh. new_size w h T = Inr (nw, nh)))"
proof (intro conjI allI impI)
  fix nw nh
  assume "new_size w h T = Inr (nw, nh)"
  with assms have b: "0 \<le> nw \<and> nw \<le> T \<and> 0 \<le> nh \<and> nh \<le> T" by (rule new_size_within)
  then show "nw \<le> T" "nh \<le> T" "0 \<le> nw" "0 \<le> nh" by simp_all
  show "0 \<le> paste_offset T nw" "paste_offset T nw + nw \<le> T"
    using b paste_offset_within[of nw T] by simp_all
  show "0 \<le> paste_offset T nh" "paste_offset T nh + nh \<le> T"
    using b paste_offset_within[of nh T] by simp_all
next
  assume "w \<le> 2 ^ 53"
  then show "\<exists>nw nh. new_size w h T = Inr (nw, nh)"
    using assms by (intro new_size_returns) simp_all
qed

theorem scaled_size_fits_canvas_witness:
  "\<exists>nw nh. new_size 200 100 100 = Inr (nw, nh) \<and> nw \<le> 100 \<and> nh \<le> 100 \<and>
     0 \<le> paste_offset 100 nw \<and> 0 \<le> paste_offset 100 nh"
proof -
  have h: "(0::int) < 200" "(0::int) < 100" "(100::int) \<le> 2 ^ 53" "(200::int) \<le> 2 ^ 53"
    by simp_all
  from scaled_size_fits_canvas[OF h(1) h(2) h(2) h(3)] h(4) show ?thesis by blast
qed


text \<open>
  C10 (as stated, refuted).  Beyond \<open>2 ^ 53\<close> the conversion of the target size to a
  double can round up: for a 1 x 1 image and the target size \<open>2 ^ 54 + 3\<close> the new width
  is \<open>2 ^ 54 + 4\<close>, larger than the canvas, and the paste offset is \<open>-1\<close>.
\<close>

theorem scaled_size_exceeds_canvas_counterexample:
  "new_size 1 1 18014398509481987 = Inr (18014398509481988, 18014398509481987) \<and>
   paste_offset 18014398509481987 18014398509481988 = - 1"
  by (simp add: new_size_def and_then_def int_truediv_def float_of_int_def float_mul_def
      int_of_float_def double_round_1 dr_big dr_big_exact overflows_def pow2_eval trunc_def
      paste_offset_def)

end
